theory Spec2Isabelle
  imports Complex_Main
begin

section \<open>Arrays and errors\<close>

text \<open>
  The program (\<^verbatim>\<open>opm.py\<close>) works on numpy arrays.  A two-dimensional array is
  modelled by its rows together with its number of columns, so that the shapes
  \<open>(0, d)\<close> and \<open>(N, 0)\<close> stay distinct, as they are in numpy.  The value of an
  entry of dtype \<^verbatim>\<open>float64\<close> is a real number.  What the numerical routines of the
  library compute from such values in floating point (matrix products, inverses, filters,
  \<^verbatim>\<open>arctan2\<close>) is not fixed by the model: each such routine is a parameter, and only the
  shape of its result and its errors are modelled.

  Every exception that the program or the library calls it makes can raise is a
  value of \<open>error\<close>; the constructor names the Python exception and the call
  that raises it.
\<close>

datatype error =
    LinAlgError_singular
  | LinAlgError_not_square
  | ValueError_matmul
  | ValueError_reshape
  | ValueError_negative_dimensions
  | ValueError_vstack
  | IndexError

datatype 'a array2 = Array2 (ncols: nat) (rows: "'a list list")

definition nrows :: "'a array2 \<Rightarrow> nat" where
  "nrows A = length (rows A)"


definition wf_array2 :: "'a array2 \<Rightarrow> bool" where
  "wf_array2 A = list_all (\<lambda>r. length r = ncols A) (rows A)"

text \<open>\<^verbatim>\<open>A.T\<close>: entry \<open>(j, i)\<close> of the result is entry \<open>(i, j)\<close> of \<open>A\<close>.\<close>

definition transpose_T :: "'a array2 \<Rightarrow> 'a array2" where
  "transpose_T A = Array2 (nrows A) (map (\<lambda>j. map (\<lambda>r. r ! j) (rows A)) [0..<ncols A])"

text \<open>\<^verbatim>\<open>A.flatten()\<close>: the entries in row-major (C) order.\<close>

definition flatten :: "'a array2 \<Rightarrow> 'a list" where
  "flatten A = concat (rows A)"

section \<open>The size argument\<close>

text \<open>
  \<^verbatim>\<open>make_opm\<close> and \<^verbatim>\<open>get_indices\<close> take a size that is either an \<^verbatim>\<open>int\<close> or a pair:
  \<^verbatim>\<open>
    if isinstance(size, int):
        sx, sy = size, size
    else:
        sx, sy = size
  \<close>
\<close>

datatype size_arg = SizeInt int | SizePair int int

fun unpack_size :: "size_arg \<Rightarrow> int \<times> int" where
  "unpack_size (SizeInt s) = (s, s)"
| "unpack_size (SizePair sx sy) = (sx, sy)"

section \<open>Pixel indices: \<^verbatim>\<open>get_indices\<close>\<close>

text \<open>\<^verbatim>\<open>np.arange(n)\<close> for an integer \<open>n\<close>: \<open>0, \<dots>, n - 1\<close>, empty when \<open>n \<le> 0\<close>.\<close>

definition arange :: "int \<Rightarrow> int list" where
  "arange n = map int [0..<nat n]"

text \<open>
  \<^verbatim>\<open>np.meshgrid(x, y)\<close> with the default \<^verbatim>\<open>indexing='xy'\<close>: two arrays of shape
  \<open>(len(y), len(x))\<close> with \<open>X[i, j] = x[j]\<close> and \<open>Y[i, j] = y[i]\<close>.
\<close>

definition meshgrid :: "'a list \<Rightarrow> 'a list \<Rightarrow> 'a array2 \<times> 'a array2" where
  "meshgrid xs ys =
     (Array2 (length xs) (map (\<lambda>y. xs) ys),
      Array2 (length xs) (map (\<lambda>y. map (\<lambda>x. y) xs) ys))"

text \<open>\<^verbatim>\<open>np.vstack((u, v))\<close> of two one-dimensional arrays; numpy raises when the lengths differ.\<close>

definition vstack :: "'a list \<Rightarrow> 'a list \<Rightarrow> error + 'a array2" where
  "vstack u v =
     (if length u \<noteq> length v then Inl ValueError_vstack
      else Inr (Array2 (length u) [u, v]))"

text \<open>
  \<^verbatim>\<open>
    X, Y = np.meshgrid(np.arange(sx), np.arange(sy))
    indices = np.vstack((X.flatten(), Y.flatten())).T
    return indices
  \<close>
\<close>

definition get_indices :: "size_arg \<Rightarrow> error + int array2" where
  "get_indices sz =
     (case unpack_size sz of (sx, sy) \<Rightarrow>
        (case meshgrid (arange sx) (arange sy) of (X, Y) \<Rightarrow>
           (case vstack (flatten X) (flatten Y) of
              Inl e \<Rightarrow> Inl e
            | Inr S \<Rightarrow> Inr (transpose_T S))))"

section \<open>The numerical library used by \<^verbatim>\<open>calculate_map\<close>\<close>

text \<open>
  \<^verbatim>\<open>A @ B\<close> and \<^verbatim>\<open>np.linalg.inv\<close> compute in \<^verbatim>\<open>float64\<close>: their results are rounded, can
  underflow and overflow, and whether \<^verbatim>\<open>np.linalg.inv\<close> raises depends on the pivots that
  LAPACK meets in floating point.  The model therefore takes the entries they compute as
  parameters and fixes only what does not depend on the arithmetic: the shapes of the
  results and the errors.
\<close>

definition from_entries :: "nat \<Rightarrow> nat \<Rightarrow> (nat \<Rightarrow> nat \<Rightarrow> 'a) \<Rightarrow> 'a array2" where
  "from_entries m n f = Array2 n (map (\<lambda>i. map (\<lambda>j. f i j) [0..<n]) [0..<m])"

text \<open>
  \<^verbatim>\<open>A @ B\<close> for two-dimensional arrays: numpy raises \<^verbatim>\<open>ValueError\<close> unless the number of
  columns of \<open>A\<close> is the number of rows of \<open>B\<close>, and returns an array of shape
  \<open>(nrows A, ncols B)\<close> otherwise.  \<open>gemm A B i j\<close> is the entry \<open>(i, j)\<close> that the library
  computes.
\<close>

type_synonym ('a, 'b) product = "'a array2 \<Rightarrow> 'b array2 \<Rightarrow> nat \<Rightarrow> nat \<Rightarrow> 'b"

definition matmul :: "('a, 'b) product \<Rightarrow> 'a array2 \<Rightarrow> 'b array2 \<Rightarrow> error + 'b array2" where
  "matmul gemm A B =
     (if ncols A \<noteq> nrows B then Inl ValueError_matmul
      else Inr (from_entries (nrows A) (ncols B) (gemm A B)))"

text \<open>
  \<^verbatim>\<open>np.linalg.inv(A)\<close>: numpy raises \<^verbatim>\<open>LinAlgError\<close> for an array that is not square, and
  when LAPACK reports a singular matrix; otherwise it returns an array of the shape of
  \<open>A\<close>.  \<open>lapack A\<close> is \<open>None\<close> when LAPACK reports a singular matrix and holds the
  entries of the result otherwise.
\<close>

type_synonym lapack = "real array2 \<Rightarrow> (nat \<Rightarrow> nat \<Rightarrow> real) option"

definition linalg_inv :: "lapack \<Rightarrow> real array2 \<Rightarrow> error + real array2" where
  "linalg_inv lapack A =
     (if nrows A \<noteq> ncols A then Inl LinAlgError_not_square
      else (case lapack A of
              None \<Rightarrow> Inl LinAlgError_singular
            | Some f \<Rightarrow> Inr (from_entries (ncols A) (ncols A) f)))"

section \<open>Exact arithmetic\<close>

text \<open>
  One possible value of the library parameters is exact arithmetic: the product without
  rounding and the inverse of linear algebra.  It is what the library computes whenever
  no rounding occurs, as for the small integer matrices of the examples below, and it is
  the arithmetic in which the least-squares formula is an identity.  It is not what the
  program computes in general.
\<close>

text \<open>The inner product of two one-dimensional arrays.\<close>

definition dot :: "'a::semiring_0 list \<Rightarrow> 'a list \<Rightarrow> 'a" where
  "dot u v = sum_list (map2 (*) u v)"

text \<open>A row vector times a matrix: entry \<open>j\<close> is the inner product with column \<open>j\<close>.\<close>

definition vecmat :: "'a::semiring_0 list \<Rightarrow> 'a array2 \<Rightarrow> 'a list" where
  "vecmat b A = map (\<lambda>c. dot b c) (rows (transpose_T A))"

text \<open>A matrix times a column vector.\<close>

definition matvec :: "'a::semiring_0 array2 \<Rightarrow> 'a list \<Rightarrow> 'a list" where
  "matvec A x = map (\<lambda>r. dot r x) (rows A)"

text \<open>
  The exact matrix product: entry \<open>(i, j)\<close> is the inner product of row \<open>i\<close> of \<open>A\<close> with
  column \<open>j\<close> of \<open>B\<close>.
\<close>

definition matrix_product :: "'a::semiring_0 array2 \<Rightarrow> 'a array2 \<Rightarrow> 'a array2" where
  "matrix_product A B = Array2 (ncols B) (map (\<lambda>r. vecmat r B) (rows A))"

definition exact_product :: "('a::semiring_0, 'a) product" where
  "exact_product A B i j = rows (matrix_product A B) ! i ! j"

text \<open>The \<open>n \<times> n\<close> identity matrix.\<close>

definition eye :: "nat \<Rightarrow> 'a::zero_neq_one array2" where
  "eye n = Array2 n (map (\<lambda>i. map (\<lambda>j. if i = j then 1 else 0) [0..<n]) [0..<n])"

text \<open>
  The exact inverse, by Gauss-Jordan elimination on the augmented rows \<open>[A | I]\<close>: for
  each column in turn a row with a non-zero entry in that column is chosen among the rows
  not yet used, scaled to make that entry \<open>1\<close>, and subtracted from every other row.
  When no such row exists the matrix is singular.  Afterwards the left halves of the rows
  form the identity and the right halves the inverse.
\<close>

definition vscale :: "'a::field \<Rightarrow> 'a list \<Rightarrow> 'a list" where
  "vscale c v = map (\<lambda>x. c * x) v"

definition vsub :: "'a::field list \<Rightarrow> 'a list \<Rightarrow> 'a list" where
  "vsub u v = map2 (-) u v"

fun split_pivot :: "nat \<Rightarrow> 'a::field list list \<Rightarrow> ('a list \<times> 'a list list) option" where
  "split_pivot j [] = None"
| "split_pivot j (r # rs) =
     (if r ! j \<noteq> 0 then Some (r, rs)
      else (case split_pivot j rs of
              None \<Rightarrow> None
            | Some (p, rest) \<Rightarrow> Some (p, r # rest)))"

definition eliminate :: "nat \<Rightarrow> 'a::field list \<Rightarrow> 'a list \<Rightarrow> 'a list" where
  "eliminate j q r = vsub r (vscale (r ! j) q)"

text \<open>
  \<open>gauss_jordan k solved pending\<close> runs the remaining \<open>k\<close> column steps; \<open>solved\<close> are the
  rows already used as pivots, in pivot order, so the current column is \<open>length solved\<close>.
\<close>

fun gauss_jordan ::
  "nat \<Rightarrow> 'a::field list list \<Rightarrow> 'a list list \<Rightarrow> 'a list list option" where
  "gauss_jordan 0 solved pending = Some solved"
| "gauss_jordan (Suc k) solved pending =
     (case split_pivot (length solved) pending of
        None \<Rightarrow> None
      | Some (p, rest) \<Rightarrow>
          (let q = vscale (1 / p ! length solved) p
           in gauss_jordan k
                (map (eliminate (length solved) q) solved @ [q])
                (map (eliminate (length solved) q) rest)))"

definition exact_inverse :: "'a::field array2 \<Rightarrow> 'a array2 option" where
  "exact_inverse A =
     (case gauss_jordan (ncols A) [] (map2 (@) (rows A) (rows (eye (ncols A)))) of
        None \<Rightarrow> None
      | Some rs \<Rightarrow> Some (Array2 (ncols A) (map (drop (ncols A)) rs)))"

definition exact_lapack :: lapack where
  "exact_lapack A =
     (case exact_inverse A of
        None \<Rightarrow> None
      | Some B \<Rightarrow> Some (\<lambda>i j. rows B ! i ! j))"

text \<open>
  The columns of \<open>V\<close> are linearly independent: the only vector that \<open>V\<close> maps to zero
  is the zero vector.
\<close>

definition full_column_rank :: "real array2 \<Rightarrow> bool" where
  "full_column_rank V \<longleftrightarrow>
     (\<forall>x. length x = ncols V \<and> matvec V x = replicate (nrows V) 0 \<longrightarrow>
          x = replicate (ncols V) 0)"

text \<open>A square matrix is invertible when some matrix is its inverse on both sides.\<close>

definition invertible :: "real array2 \<Rightarrow> bool" where
  "invertible A \<longleftrightarrow>
     (\<exists>B. wf_array2 B \<and> nrows B = ncols A \<and> ncols B = ncols A \<and>
          matrix_product B A = eye (ncols A) \<and> matrix_product A B = eye (ncols A))"

section \<open>The map estimator: \<^verbatim>\<open>calculate_map\<close>\<close>

text \<open>
  A three-dimensional array: its shape and its slices along the first axis, each a list
  of rows.
\<close>

datatype 'a array3 = Array3 (shape3: "nat \<times> nat \<times> nat") (slices: "'a list list list")

text \<open>
  The responses may be of dtype \<^verbatim>\<open>float64\<close> or \<^verbatim>\<open>complex128\<close>.  The stimuli are a
  \<^verbatim>\<open>float64\<close> array.
\<close>

datatype ndarray2 = Float64 "real array2" | Complex128 "complex array2"

text \<open>\<^verbatim>\<open>A.astype(dtype)\<close>, entry by entry.\<close>

definition astype :: "('a \<Rightarrow> 'b) \<Rightarrow> 'a array2 \<Rightarrow> 'b array2" where
  "astype f A = Array2 (ncols A) (map (map f) (rows A))"

text \<open>
  \<^verbatim>\<open>np.round\<close> rounds to the nearest integer, and a value halfway between two integers to
  the even one.
\<close>

definition np_round :: "real \<Rightarrow> int" where
  "np_round x =
     (let f = \<lfloor>x\<rfloor>; r = x - of_int f
      in if r < 1 / 2 then f else if 1 / 2 < r then f + 1 else if even f then f else f + 1)"

text \<open>
  \<^verbatim>\<open>
    if not size:
        size = int(np.round(np.sqrt(R.shape[1])))
        size = (size, size)
  \<close>
\<close>

definition default_size :: "nat \<Rightarrow> int \<times> int" where
  "default_size n = (let s = np_round (sqrt (real n)) in (s, s))"

text \<open>\<^verbatim>\<open>np.zeros((d, sx, sy))\<close>: numpy raises for a negative dimension.\<close>

definition zeros :: "nat \<Rightarrow> int \<Rightarrow> int \<Rightarrow> error + real array3" where
  "zeros d sx sy =
     (if sx < 0 \<or> sy < 0 then Inl ValueError_negative_dimensions
      else Inr (Array3 (d, nat sx, nat sy)
                  (replicate d (replicate (nat sx) (replicate (nat sy) 0)))))"

text \<open>
  \<^verbatim>\<open>a.reshape(sx, sy)\<close> of a one-dimensional array in row-major order: numpy raises
  unless \<open>sx * sy\<close> is the number of entries.  It is only called after \<^verbatim>\<open>np.zeros\<close> has
  accepted the dimensions, so they are not negative here.
\<close>

definition reshape :: "'a list \<Rightarrow> nat \<Rightarrow> nat \<Rightarrow> error + 'a array2" where
  "reshape a sx sy =
     (if sx * sy \<noteq> length a then Inl ValueError_reshape
      else Inr (Array2 sy (map (\<lambda>i. take sy (drop (i * sy) a)) [0..<sx])))"

text \<open>
  \<^verbatim>\<open>
    for i, a in enumerate(M_flat):
        M[i] = a.reshape(*size)
  \<close>
  \<open>M\<close> is a \<^verbatim>\<open>float64\<close> array, so the assignment casts each entry with \<open>cast\<close>; an
  index outside \<open>M\<close> raises \<^verbatim>\<open>IndexError\<close>.
\<close>

fun assign_slices ::
  "('a \<Rightarrow> real) \<Rightarrow> nat \<Rightarrow> nat \<Rightarrow> real list list list \<Rightarrow> nat \<Rightarrow> 'a list list \<Rightarrow>
   error + real list list list" where
  "assign_slices cast sx sy M i [] = Inr M"
| "assign_slices cast sx sy M i (a # rest) =
     (case reshape a sx sy of
        Inl e \<Rightarrow> Inl e
      | Inr g \<Rightarrow>
          if i < length M
          then assign_slices cast sx sy (M[i := map (map cast) (rows g)]) (Suc i) rest
          else Inl IndexError)"

text \<open>
  The body of \<^verbatim>\<open>calculate_map\<close> for responses of one dtype.  \<open>gemm\<close> and \<open>lapack\<close> are
  the library's \<^verbatim>\<open>float64\<close> product and inverse, \<open>gemm_R\<close> is the library's product of the
  \<^verbatim>\<open>float64\<close> factor \<^verbatim>\<open>inv(V.T @ V) @ V.T\<close> with the responses in their dtype, and \<open>cast\<close> is
  the cast to \<^verbatim>\<open>float64\<close> on assignment into \<open>M\<close>.
  \<^verbatim>\<open>
    V = stimuli
    d = V.shape[1]
    R = responses
    M_flat = np.linalg.inv(V.T @ V) @ V.T @ R
    if not size:
        size = int(np.round(np.sqrt(R.shape[1])))
        size = (size, size)
    M = np.zeros((d, *size))
    for i, a in enumerate(M_flat):
        M[i] = a.reshape(*size)
    return M
  \<close>
\<close>

definition calculate_map_dtype ::
  "(real, real) product \<Rightarrow> lapack \<Rightarrow> (real, 'a) product \<Rightarrow> ('a \<Rightarrow> real) \<Rightarrow>
   'a array2 \<Rightarrow> real array2 \<Rightarrow> (int \<times> int) option \<Rightarrow> error + real array3" where
  "calculate_map_dtype gemm lapack gemm_R cast R V sz =
     (let d = ncols V in
      case matmul gemm (transpose_T V) V of Inl e \<Rightarrow> Inl e | Inr G \<Rightarrow>
      case linalg_inv lapack G of Inl e \<Rightarrow> Inl e | Inr Gi \<Rightarrow>
      case matmul gemm Gi (transpose_T V) of Inl e \<Rightarrow> Inl e | Inr P \<Rightarrow>
      case matmul gemm_R P R of Inl e \<Rightarrow> Inl e | Inr M_flat \<Rightarrow>
      case (case sz of None \<Rightarrow> default_size (ncols R) | Some s \<Rightarrow> s) of (sx, sy) \<Rightarrow>
      case zeros d sx sy of Inl e \<Rightarrow> Inl e | Inr M \<Rightarrow>
      case assign_slices cast (nat sx) (nat sy) (slices M) 0 (rows M_flat) of
        Inl e \<Rightarrow> Inl e
      | Inr S \<Rightarrow> Inr (Array3 (shape3 M) S))"

text \<open>
  \<^verbatim>\<open>calculate_map(responses, stimuli, size=None)\<close>.  For \<^verbatim>\<open>float64\<close> responses all three
  products are \<^verbatim>\<open>float64\<close> products and the assignment into \<open>M\<close> copies the entries.  For
  \<^verbatim>\<open>complex128\<close> responses the last product is the library's product \<open>zgemm\<close> of a
  \<^verbatim>\<open>float64\<close> array with a \<^verbatim>\<open>complex128\<close> array, which is complex, and the assignment into
  the \<^verbatim>\<open>float64\<close> array \<open>M\<close> keeps the real part of each entry.
\<close>

definition calculate_map ::
  "(real, real) product \<Rightarrow> (real, complex) product \<Rightarrow> lapack \<Rightarrow>
   ndarray2 \<Rightarrow> real array2 \<Rightarrow> (int \<times> int) option \<Rightarrow> error + real array3" where
  "calculate_map gemm zgemm lapack responses stimuli sz =
     (case responses of
        Float64 R \<Rightarrow> calculate_map_dtype gemm lapack gemm (\<lambda>x. x) R stimuli sz
      | Complex128 R \<Rightarrow> calculate_map_dtype gemm lapack zgemm Re R stimuli sz)"

text \<open>
  In exact arithmetic the product of a \<^verbatim>\<open>float64\<close> array with a \<^verbatim>\<open>complex128\<close> array is the
  exact complex product with the first factor read as complex numbers.
\<close>

definition exact_complex_product :: "(real, complex) product" where
  "exact_complex_product P R i j = rows (matrix_product (astype complex_of_real P) R) ! i ! j"

section \<open>The map generator: \<^verbatim>\<open>make_opm\<close>\<close>

text \<open>
  The process-wide random source is explicit state: the sequence of standard-normal
  samples still to be drawn.  \<^verbatim>\<open>np.random.randn(sx, sy)\<close> raises \<^verbatim>\<open>ValueError\<close> for a negative
  dimension; otherwise it fills an \<open>sx \<times> sy\<close> array with the next \<open>sx * sy\<close> samples and
  advances the source.  A dimension \<open>0\<close> is accepted and gives an empty array.
\<close>

type_synonym rng = "nat \<Rightarrow> real"

definition randn :: "int \<Rightarrow> int \<Rightarrow> rng \<Rightarrow> error + (real array2 \<times> rng)" where
  "randn sx sy g =
     (if sx < 0 \<or> sy < 0 then Inl ValueError_negative_dimensions
      else Inr (Array2 (nat sy)
                  (map (\<lambda>i. map (\<lambda>j. g (i * nat sy + j)) [0..<nat sy]) [0..<nat sx]),
                \<lambda>n. g (n + nat sx * nat sy)))"

text \<open>
  \<^verbatim>\<open>scipy.ndimage.filters.gaussian_filter\<close> is a library routine that returns an array of
  the shape of its input.  The value it computes at a pixel is the parameter \<open>blur\<close> of
  the model: \<open>blur x sigma i j\<close> is entry \<open>(i, j)\<close> of the filtered \<open>x\<close>.
\<close>

type_synonym blur = "real array2 \<Rightarrow> real \<Rightarrow> nat \<Rightarrow> nat \<Rightarrow> real"

definition gaussian_filter :: "blur \<Rightarrow> real array2 \<Rightarrow> real \<Rightarrow> real array2" where
  "gaussian_filter blur x sigma =
     Array2 (ncols x) (map (\<lambda>i. map (\<lambda>j. blur x sigma i j) [0..<ncols x]) [0..<nrows x])"

text \<open>\<^verbatim>\<open>alpha * A\<close>, \<^verbatim>\<open>A - B\<close> and \<^verbatim>\<open>a + 1j * b\<close> on arrays of one shape, entry by entry.\<close>

definition scalar_times :: "real \<Rightarrow> real array2 \<Rightarrow> real array2" where
  "scalar_times alpha A = astype (\<lambda>x. alpha * x) A"

definition array_minus :: "real array2 \<Rightarrow> real array2 \<Rightarrow> real array2" where
  "array_minus A B = Array2 (ncols A) (map2 (map2 (-)) (rows A) (rows B))"

definition complex_array :: "real array2 \<Rightarrow> real array2 \<Rightarrow> complex array2" where
  "complex_array a b = Array2 (ncols a) (map2 (map2 Complex) (rows a) (rows b))"

text \<open>
  \<^verbatim>\<open>
    def make_opm(size, sigma=4., k=2., alpha=1.):
        if isinstance(size, int):
            sx, sy = size, size
        else:
            sx, sy = size
        a = np.random.randn(sx, sy)
        b = np.random.randn(sx, sy)
        a = alpha * filters.gaussian_filter(a, sigma) - alpha * filters.gaussian_filter(a, k * sigma)
        b = alpha * filters.gaussian_filter(b, sigma) - alpha * filters.gaussian_filter(b, k * sigma)
        m = a + 1j * b
        return m
  \<close>
  The function returns the map together with the random source as it leaves it.
\<close>

definition difference_of_gaussians :: "blur \<Rightarrow> real \<Rightarrow> real \<Rightarrow> real \<Rightarrow> real array2 \<Rightarrow> real array2" where
  "difference_of_gaussians blur sigma k alpha x =
     array_minus (scalar_times alpha (gaussian_filter blur x sigma))
                 (scalar_times alpha (gaussian_filter blur x (k * sigma)))"

definition make_opm ::
  "blur \<Rightarrow> size_arg \<Rightarrow> real \<Rightarrow> real \<Rightarrow> real \<Rightarrow> rng \<Rightarrow> error + (complex array2 \<times> rng)" where
  "make_opm blur sz sigma k alpha g =
     (case unpack_size sz of (sx, sy) \<Rightarrow>
      case randn sx sy g of Inl e \<Rightarrow> Inl e | Inr (a, g1) \<Rightarrow>
      case randn sx sy g1 of Inl e \<Rightarrow> Inl e | Inr (b, g2) \<Rightarrow>
        Inr (complex_array (difference_of_gaussians blur sigma k alpha a)
                           (difference_of_gaussians blur sigma k alpha b), g2))"

section \<open>The angle handed to the plot: \<^verbatim>\<open>plot_opm\<close>\<close>

text \<open>
  \<^verbatim>\<open>np.iscomplex(m).any()\<close>: \<^verbatim>\<open>np.iscomplex\<close> tests, entry by entry, whether the imaginary part
  is not zero; for an array of real dtype no entry passes.
\<close>

definition iscomplex_any :: "ndarray2 \<Rightarrow> bool" where
  "iscomplex_any m =
     (case m of
        Float64 A \<Rightarrow> False
      | Complex128 A \<Rightarrow> list_ex (list_ex (\<lambda>z. Im z \<noteq> 0)) (rows A))"

text \<open>
  \<^verbatim>\<open>np.angle(m)\<close> is \<^verbatim>\<open>arctan2(m.imag, m.real)\<close>, entry by entry, and the imaginary part of an
  entry of a real array is \<open>0\<close>.  The library routine \<^verbatim>\<open>arctan2\<close> is a parameter of the model.
\<close>

definition angle :: "(real \<Rightarrow> real \<Rightarrow> real) \<Rightarrow> ndarray2 \<Rightarrow> real array2" where
  "angle arctan2 m =
     (case m of
        Float64 A \<Rightarrow> astype (\<lambda>x. arctan2 0 x) A
      | Complex128 A \<Rightarrow> astype (\<lambda>z. arctan2 (Im z) (Re z)) A)"

text \<open>
  The array that \<^verbatim>\<open>plot_opm\<close> passes to \<^verbatim>\<open>imshow\<close>:
  \<^verbatim>\<open>
    if np.iscomplex(m).any():
        theta = 0.5 * (np.angle(m) + np.pi)
    else:
        theta = m
  \<close>
\<close>

definition plot_opm_theta :: "(real \<Rightarrow> real \<Rightarrow> real) \<Rightarrow> ndarray2 \<Rightarrow> ndarray2" where
  "plot_opm_theta arctan2 m =
     (if iscomplex_any m then Float64 (astype (\<lambda>t. 1 / 2 * (t + pi)) (angle arctan2 m)) else m)"

section \<open>Row-major order\<close>

lemma concat_uniform_length:
  "list_all (\<lambda>r. length r = m) rs \<Longrightarrow> length (concat rs) = length rs * m"
  by (induction rs) auto

lemma concat_uniform_nth:
  "list_all (\<lambda>r. length r = m) rs \<Longrightarrow> k < length rs * m \<Longrightarrow>
   concat rs ! k = rs ! (k div m) ! (k mod m)"
proof (induction rs arbitrary: k)
  case Nil
  then show ?case by simp
next
  case (Cons r rs)
  then have len: "length r = m" and rest: "list_all (\<lambda>r. length r = m) rs"
    by simp_all
  show ?case
  proof (cases "k < m")
    case True
    then show ?thesis using len by (simp add: nth_append)
  next
    case False
    then have km: "m \<le> k" by simp
    from Cons.prems(2) km have m0: "0 < m" by (cases m) auto
    from Cons.prems(2) km have "k - m < length rs * m" by simp
    from Cons.IH [OF rest this]
    have "concat rs ! (k - m) = rs ! ((k - m) div m) ! ((k - m) mod m)" .
    moreover have "(k - m) div m = k div m - 1" using km m0
      by (simp add: le_div_geq)
    moreover have "(k - m) mod m = k mod m" using km
      by (simp add: le_mod_geq)
    moreover have "0 < k div m" using km m0
      by (simp add: div_greater_zero_iff)
    ultimately show ?thesis using False len
      by (simp add: nth_append nth_Cons')
  qed
qed


section \<open>Properties of \<^verbatim>\<open>get_indices\<close>\<close>

lemma flatten_meshgrid_X:
  assumes "k < length ys * length xs"
  shows "flatten (fst (meshgrid xs ys)) ! k = xs ! (k mod length xs)"
proof -
  have "concat (map (\<lambda>y. xs) ys) ! k = map (\<lambda>y. xs) ys ! (k div length xs) ! (k mod length xs)"
    using assms by (intro concat_uniform_nth) (simp_all add: list_all_iff)
  moreover have "k div length xs < length ys"
    using assms by (simp add: less_mult_imp_div_less)
  ultimately show ?thesis by (simp add: flatten_def meshgrid_def)
qed

lemma flatten_meshgrid_Y:
  assumes "k < length ys * length xs"
  shows "flatten (snd (meshgrid xs ys)) ! k = ys ! (k div length xs)"
proof -
  have xs0: "0 < length xs" using assms by (cases "length xs") auto
  have "concat (map (\<lambda>y. map (\<lambda>x. y) xs) ys) ! k
        = map (\<lambda>y. map (\<lambda>x. y) xs) ys ! (k div length xs) ! (k mod length xs)"
    using assms by (intro concat_uniform_nth) (simp_all add: list_all_iff)
  moreover have "k div length xs < length ys"
    using assms by (simp add: less_mult_imp_div_less)
  moreover have "k mod length xs < length xs" using xs0 by simp
  ultimately show ?thesis by (simp add: flatten_def meshgrid_def)
qed

lemma length_flatten_meshgrid:
  "length (flatten (fst (meshgrid xs ys))) = length ys * length xs"
  "length (flatten (snd (meshgrid xs ys))) = length ys * length xs"
  by (simp_all add: flatten_def meshgrid_def concat_uniform_length [where m = "length xs"] list_all_iff)

lemma get_indices_rows:
  assumes "unpack_size sz = (sx, sy)"
  shows "get_indices sz =
         Inr (Array2 2 (map (\<lambda>k. [int (k mod nat sx), int (k div nat sx)]) [0..<nat sx * nat sy]))"
proof -
  let ?xs = "arange sx" and ?ys = "arange sy"
  let ?n = "nat sx * nat sy"
  obtain X Y where XY: "meshgrid ?xs ?ys = (X, Y)" by (cases "meshgrid ?xs ?ys")
  have lx: "length ?xs = nat sx" and ly: "length ?ys = nat sy" by (simp_all add: arange_def)
  have lX: "length (flatten X) = ?n" and lY: "length (flatten Y) = ?n"
    using length_flatten_meshgrid [of ?xs ?ys] XY lx ly by (simp_all add: mult.commute)
  have X: "flatten X ! k = int (k mod nat sx)" if "k < ?n" for k
  proof -
    have "0 < nat sx" using that by (cases "nat sx") auto
    then have "k mod nat sx < nat sx" by simp
    then show ?thesis
      using flatten_meshgrid_X [of k ?ys ?xs] that XY lx ly
      by (simp add: mult.commute arange_def)
  qed
  have Y: "flatten Y ! k = int (k div nat sx)" if "k < ?n" for k
  proof -
    have "k div nat sx < nat sy" using that by (simp add: less_mult_imp_div_less mult.commute)
    then show ?thesis
      using flatten_meshgrid_Y [of k ?ys ?xs] that XY lx ly
      by (simp add: mult.commute arange_def)
  qed
  have "map (\<lambda>j. map (\<lambda>r. r ! j) [flatten X, flatten Y]) [0..<?n]
        = map (\<lambda>k. [int (k mod nat sx), int (k div nat sx)]) [0..<?n]"
    using X Y by simp
  then show ?thesis
    using assms XY lX lY
    by (simp add: get_indices_def vstack_def transpose_T_def nrows_def)
qed






lemma get_indices_2_3:
  "get_indices (SizePair 2 3) = Inr (Array2 2 [[0,0],[1,0],[0,1],[1,1],[0,2],[1,2]])"
  by code_simp


section \<open>Exact arithmetic: vectors and matrices\<close>

lemma dot_Nil [simp]: "dot [] v = 0" "dot u [] = 0"
  by (simp_all add: dot_def)

lemma dot_Cons [simp]: "dot (x # u) (y # v) = x * y + dot u v"
  by (simp add: dot_def)

lemma dot_sum:
  "length u = length v \<Longrightarrow> dot u v = (\<Sum>k<length u. u ! k * v ! k)"
proof (induction u v rule: list_induct2)
  case Nil
  then show ?case by simp
next
  case (Cons x xs y ys)
  then show ?case by (simp add: sum.lessThan_Suc_shift del: sum.lessThan_Suc)
qed

lemma length_vscale [simp]: "length (vscale c v) = length v"
  by (simp add: vscale_def)

lemma length_vsub [simp]: "length (vsub u v) = min (length u) (length v)"
  by (simp add: vsub_def)

lemma nth_vscale [simp]: "k < length v \<Longrightarrow> vscale c v ! k = c * v ! k"
  by (simp add: vscale_def)

lemma nth_vsub [simp]: "k < length u \<Longrightarrow> k < length v \<Longrightarrow> vsub u v ! k = u ! k - v ! k"
  by (simp add: vsub_def)

lemma take_vscale: "take n (vscale c v) = vscale c (take n v)"
  by (simp add: vscale_def take_map)

lemma drop_vscale: "drop n (vscale c v) = vscale c (drop n v)"
  by (simp add: vscale_def drop_map)

lemma take_vsub: "take n (vsub u v) = vsub (take n u) (take n v)"
  by (simp add: vsub_def take_map take_zip)

lemma drop_vsub: "drop n (vsub u v) = vsub (drop n u) (drop n v)"
  by (simp add: vsub_def drop_map drop_zip)

lemma dot_vscale: "dot (vscale c u) w = c * dot u w"
proof (induction u arbitrary: w)
  case Nil
  then show ?case by (simp add: vscale_def)
next
  case (Cons x u)
  then show ?case by (cases w) (simp_all add: vscale_def algebra_simps)
qed

lemma dot_vsub:
  "length u = length v \<Longrightarrow> dot (vsub u v) w = dot u w - dot v w"
proof (induction u v arbitrary: w rule: list_induct2)
  case Nil
  then show ?case by (simp add: vsub_def)
next
  case (Cons x xs y ys)
  then show ?case by (cases w) (simp_all add: vsub_def algebra_simps)
qed

lemma array2_eqI:
  assumes "wf_array2 A" and "wf_array2 B"
    and "nrows A = nrows B" and "ncols A = ncols B"
    and "\<And>i j. i < nrows A \<Longrightarrow> j < ncols A \<Longrightarrow> rows A ! i ! j = rows B ! i ! j"
  shows "A = B"
proof -
  have "rows A = rows B"
  proof (rule nth_equalityI)
    show "length (rows A) = length (rows B)" using assms(3) by (simp add: nrows_def)
  next
    fix i assume i: "i < length (rows A)"
    then have la: "length (rows A ! i) = ncols A"
      using assms(1) by (simp add: wf_array2_def list_all_length)
    have lb: "length (rows B ! i) = ncols A"
      using assms(2,3,4) i by (simp add: wf_array2_def list_all_length nrows_def)
    show "rows A ! i = rows B ! i"
    proof (rule nth_equalityI)
      show "length (rows A ! i) = length (rows B ! i)" using la lb by simp
    next
      fix j assume "j < length (rows A ! i)"
      then show "rows A ! i ! j = rows B ! i ! j"
        using assms(5) [of i j] i la by (simp add: nrows_def)
    qed
  qed
  then show ?thesis using assms(4) by (simp add: array2.expand)
qed

lemma wf_row_length:
  "wf_array2 A \<Longrightarrow> i < nrows A \<Longrightarrow> length (rows A ! i) = ncols A"
  by (simp add: wf_array2_def list_all_length nrows_def)

lemma wf_transpose_T [simp]: "wf_array2 (transpose_T A)"
  by (simp add: wf_array2_def transpose_T_def list_all_iff nrows_def)

lemma nrows_transpose_T [simp]: "nrows (transpose_T A) = ncols A"
  by (simp add: transpose_T_def nrows_def)

lemma ncols_transpose_T [simp]: "ncols (transpose_T A) = nrows A"
  by (simp add: transpose_T_def)

lemma entry_transpose_T:
  "j < ncols A \<Longrightarrow> i < nrows A \<Longrightarrow> rows (transpose_T A) ! j ! i = rows A ! i ! j"
  by (simp add: transpose_T_def nrows_def)

lemma transpose_T_twice: "wf_array2 A \<Longrightarrow> transpose_T (transpose_T A) = A"
  by (rule array2_eqI) (simp_all add: entry_transpose_T)

lemma length_vecmat [simp]: "length (vecmat b A) = ncols A"
  by (simp add: vecmat_def transpose_T_def)

lemma nth_vecmat:
  assumes "length b = nrows A" and "j < ncols A"
  shows "vecmat b A ! j = (\<Sum>k<nrows A. b ! k * rows A ! k ! j)"
proof -
  have "vecmat b A ! j = dot b (map (\<lambda>r. r ! j) (rows A))"
    using assms(2) by (simp add: vecmat_def transpose_T_def)
  also have "\<dots> = (\<Sum>k<length b. b ! k * map (\<lambda>r. r ! j) (rows A) ! k)"
    using assms(1) by (intro dot_sum) (simp add: nrows_def)
  also have "\<dots> = (\<Sum>k<nrows A. b ! k * rows A ! k ! j)"
    using assms(1) by (intro sum.cong) (simp_all add: nrows_def)
  finally show ?thesis .
qed

lemma wf_matrix_product [simp]: "wf_array2 (matrix_product A B)"
  by (simp add: wf_array2_def matrix_product_def list_all_iff)

lemma nrows_matrix_product [simp]: "nrows (matrix_product A B) = nrows A"
  by (simp add: matrix_product_def nrows_def)

lemma ncols_matrix_product [simp]: "ncols (matrix_product A B) = ncols B"
  by (simp add: matrix_product_def)

lemma entry_matrix_product:
  assumes "wf_array2 A" and "ncols A = nrows B" and "i < nrows A" and "j < ncols B"
  shows "rows (matrix_product A B) ! i ! j = (\<Sum>k<ncols A. rows A ! i ! k * rows B ! k ! j)"
proof -
  have "length (rows A ! i) = nrows B"
    using assms(1,2,3) by (simp add: wf_row_length)
  then show ?thesis
    using assms(2,3,4) by (simp add: matrix_product_def nrows_def [of A] nth_vecmat)
qed

lemma matrix_product_assoc:
  fixes A B C :: "'a::semiring_0 array2"
  assumes "wf_array2 A" and "wf_array2 B"
    and "ncols A = nrows B" and "ncols B = nrows C"
  shows "matrix_product (matrix_product A B) C = matrix_product A (matrix_product B C)"
proof (rule array2_eqI)
  fix i j
  assume "i < nrows (matrix_product (matrix_product A B) C)"
    and "j < ncols (matrix_product (matrix_product A B) C)"
  then have i: "i < nrows A" and j: "j < ncols C" by simp_all
  have "rows (matrix_product (matrix_product A B) C) ! i ! j
        = (\<Sum>l<ncols B. rows (matrix_product A B) ! i ! l * rows C ! l ! j)"
    using assms i j by (simp add: entry_matrix_product)
  also have "\<dots> = (\<Sum>l<ncols B. (\<Sum>k<ncols A. rows A ! i ! k * rows B ! k ! l) * rows C ! l ! j)"
    using assms i by (intro sum.cong) (simp_all add: entry_matrix_product)
  also have "\<dots> = (\<Sum>l<ncols B. \<Sum>k<ncols A. rows A ! i ! k * (rows B ! k ! l * rows C ! l ! j))"
    by (simp add: sum_distrib_right mult.assoc)
  also have "\<dots> = (\<Sum>k<ncols A. \<Sum>l<ncols B. rows A ! i ! k * (rows B ! k ! l * rows C ! l ! j))"
    by (rule sum.swap)
  also have "\<dots> = (\<Sum>k<ncols A. rows A ! i ! k * (\<Sum>l<ncols B. rows B ! k ! l * rows C ! l ! j))"
    by (simp add: sum_distrib_left)
  also have "\<dots> = (\<Sum>k<ncols A. rows A ! i ! k * rows (matrix_product B C) ! k ! j)"
    using assms j by (intro sum.cong) (simp_all add: entry_matrix_product)
  also have "\<dots> = rows (matrix_product A (matrix_product B C)) ! i ! j"
    using assms i j by (simp add: entry_matrix_product)
  finally show "rows (matrix_product (matrix_product A B) C) ! i ! j
                = rows (matrix_product A (matrix_product B C)) ! i ! j" .
qed simp_all

lemma transpose_matrix_product:
  fixes A B :: "'a::comm_semiring_0 array2"
  assumes "wf_array2 A" and "wf_array2 B" and "ncols A = nrows B"
  shows "transpose_T (matrix_product A B) = matrix_product (transpose_T B) (transpose_T A)"
proof (rule array2_eqI)
  fix j i
  assume "j < nrows (transpose_T (matrix_product A B))"
    and "i < ncols (transpose_T (matrix_product A B))"
  then have j: "j < ncols B" and i: "i < nrows A" by simp_all
  have "rows (transpose_T (matrix_product A B)) ! j ! i
        = (\<Sum>k<ncols A. rows A ! i ! k * rows B ! k ! j)"
    using assms i j by (simp add: entry_transpose_T entry_matrix_product)
  also have "\<dots> = (\<Sum>k<nrows B. rows (transpose_T B) ! j ! k * rows (transpose_T A) ! k ! i)"
    using assms i j by (intro sum.cong) (simp_all add: entry_transpose_T mult.commute)
  also have "\<dots> = rows (matrix_product (transpose_T B) (transpose_T A)) ! j ! i"
    using assms i j by (simp add: entry_matrix_product)
  finally show "rows (transpose_T (matrix_product A B)) ! j ! i
                = rows (matrix_product (transpose_T B) (transpose_T A)) ! j ! i" .
qed simp_all

lemma wf_eye [simp]: "wf_array2 (eye n)"
  by (simp add: wf_array2_def eye_def list_all_iff)

lemma nrows_eye [simp]: "nrows (eye n) = n"
  by (simp add: eye_def nrows_def)

lemma ncols_eye [simp]: "ncols (eye n) = n"
  by (simp add: eye_def)

lemma entry_eye: "i < n \<Longrightarrow> j < n \<Longrightarrow> rows (eye n) ! i ! j = (if i = j then 1 else 0)"
  by (simp add: eye_def)

lemma transpose_eye: "transpose_T (eye n) = eye n"
  by (rule array2_eqI) (auto simp: entry_transpose_T entry_eye)

lemma matrix_product_eye_left:
  fixes A :: "'a::semiring_1 array2"
  assumes "wf_array2 A" and "nrows A = n"
  shows "matrix_product (eye n) A = A"
proof (rule array2_eqI)
  fix i j
  assume "i < nrows (matrix_product (eye n) A)" and "j < ncols (matrix_product (eye n) A)"
  then have i: "i < n" and j: "j < ncols A" by simp_all
  have "rows (matrix_product (eye n) A) ! i ! j
        = (\<Sum>k<n. rows (eye n) ! i ! k * rows A ! k ! j)"
    using assms i j by (simp add: entry_matrix_product)
  also have "\<dots> = (\<Sum>k<n. if k = i then rows A ! k ! j else 0)"
    using i by (intro sum.cong) (auto simp: entry_eye)
  also have "\<dots> = rows A ! i ! j"
    using i by simp
  finally show "rows (matrix_product (eye n) A) ! i ! j = rows A ! i ! j" .
qed (use assms in simp_all)

lemma matrix_product_eye_right:
  fixes A :: "'a::semiring_1 array2"
  assumes "wf_array2 A" and "ncols A = n"
  shows "matrix_product A (eye n) = A"
proof (rule array2_eqI)
  fix i j
  assume "i < nrows (matrix_product A (eye n))" and "j < ncols (matrix_product A (eye n))"
  then have i: "i < nrows A" and j: "j < n" by simp_all
  have "rows (matrix_product A (eye n)) ! i ! j
        = (\<Sum>k<n. rows A ! i ! k * rows (eye n) ! k ! j)"
    using assms i j by (simp add: entry_matrix_product)
  also have "\<dots> = (\<Sum>k<n. if k = j then rows A ! i ! k else 0)"
    using j by (intro sum.cong) (auto simp: entry_eye)
  also have "\<dots> = rows A ! i ! j"
    using j by simp
  finally show "rows (matrix_product A (eye n)) ! i ! j = rows A ! i ! j" .
qed (use assms in simp_all)


section \<open>Exact arithmetic: Gauss-Jordan elimination computes the inverse\<close>

lemma map2_minus_map:
  "map2 (-) (map f xs) (map g xs) = map (\<lambda>x. f x - g x) xs"
  by (induction xs) simp_all

lemma vecmat_vscale: "vecmat (vscale c b) A = vscale c (vecmat b A)"
  by (simp add: vecmat_def vscale_def [of c "map _ _"] dot_vscale)

lemma vecmat_vsub:
  "length u = length v \<Longrightarrow> vecmat (vsub u v) A = vsub (vecmat u A) (vecmat v A)"
  by (simp add: vecmat_def vsub_def [of "map _ _"] map2_minus_map dot_vsub)

lemma split_pivot_Some:
  "split_pivot j rs = Some (p, rest) \<Longrightarrow>
   p ! j \<noteq> 0 \<and> set rs = insert p (set rest) \<and> length rs = Suc (length rest)"
proof (induction rs arbitrary: rest)
  case Nil
  then show ?case by simp
next
  case (Cons r rs)
  show ?case
  proof (cases "r ! j \<noteq> 0")
    case True
    with Cons.prems show ?thesis by auto
  next
    case False
    with Cons.prems obtain rest' where sp: "split_pivot j rs = Some (p, rest')"
      and rest: "rest = r # rest'"
      by (auto split: option.splits)
    from Cons.IH [OF sp] rest show ?thesis by auto
  qed
qed

lemma split_pivot_None:
  "split_pivot j rs = None \<Longrightarrow> \<forall>r\<in>set rs. r ! j = 0"
  by (induction rs) (auto split: if_splits option.splits)


lemma length_eliminate [simp]:
  "length (eliminate j q r) = min (length r) (length q)"
  by (simp add: eliminate_def)

lemma nth_eliminate:
  "c < length r \<Longrightarrow> c < length q \<Longrightarrow> eliminate j q r ! c = r ! c - r ! j * q ! c"
  by (simp add: eliminate_def)

lemma vecmat_eliminate:
  assumes "length r = length q"
    and "vecmat (drop n r) A = take n r" and "vecmat (drop n q) A = take n q"
  shows "vecmat (drop n (eliminate j q r)) A = take n (eliminate j q r)"
  using assms
  by (simp add: eliminate_def drop_vsub take_vsub drop_vscale take_vscale vecmat_vsub vecmat_vscale)

lemma pivot_step:
  fixes solved pending :: "'a::field list list"
  assumes sp: "split_pivot (length solved) pending = Some (p, rest)"
    and len: "\<forall>r\<in>set solved \<union> set pending. length r = n + n"
    and jn: "length solved < n"
    and unit: "\<forall>i<length solved. \<forall>c<length solved. solved ! i ! c = (if c = i then 1 else 0)"
    and zero: "\<forall>r\<in>set pending. \<forall>c<length solved. r ! c = 0"
    and q: "q = vscale (1 / p ! length solved) p"
    and solved': "solved' = map (eliminate (length solved) q) solved @ [q]"
    and pending': "pending' = map (eliminate (length solved) q) rest"
  shows "\<forall>r\<in>set solved' \<union> set pending'. length r = n + n"
    and "length solved' = Suc (length solved)"
    and "Suc (length pending') = length pending"
    and "\<forall>i<length solved'. \<forall>c<length solved'. solved' ! i ! c = (if c = i then 1 else 0)"
    and "\<forall>r\<in>set pending'. \<forall>c<length solved'. r ! c = 0"
proof -
  define j where "j = length solved"
  from split_pivot_Some [OF sp]
  have pj: "p ! j \<noteq> 0" and setp: "set pending = insert p (set rest)"
    and lenp: "length pending = Suc (length rest)" by (simp_all add: j_def)
  have jn': "j < n" using jn by (simp add: j_def)
  have len_p: "length p = n + n" using len setp by simp
  have len_q: "length q = n + n" using len_p by (simp add: q)
  have len_old: "length r = n + n" if "r \<in> set solved \<union> set rest" for r
    using len setp that by auto
  have qj: "q ! j = 1" using pj jn' len_p by (simp add: q j_def)
  have qc: "q ! c = 0" if "c < j" for c
  proof -
    have "p ! c = 0" using zero setp that by (simp add: j_def)
    then show ?thesis using that jn' len_p by (simp add: q)
  qed
  show "\<forall>r\<in>set solved' \<union> set pending'. length r = n + n"
    using len_old len_q by (auto simp: solved' pending')
  show ls': "length solved' = Suc (length solved)" by (simp add: solved')
  show "Suc (length pending') = length pending" using lenp by (simp add: pending')
  have elim_c: "eliminate j q r ! c = (if c = j then 0 else r ! c)"
    if "r \<in> set solved \<union> set rest" "c \<le> j" for r c
  proof -
    have "c < n + n" using that(2) jn' by simp
    then have "eliminate j q r ! c = r ! c - r ! j * q ! c"
      using len_old [OF that(1)] len_q by (simp add: nth_eliminate)
    then show ?thesis using qj qc [of c] that(2) by (cases "c = j") simp_all
  qed
  show "\<forall>i<length solved'. \<forall>c<length solved'. solved' ! i ! c = (if c = i then 1 else 0)"
  proof (intro allI impI)
    fix i c assume i: "i < length solved'" and c: "c < length solved'"
    show "solved' ! i ! c = (if c = i then 1 else 0)"
    proof (cases "i = j")
      case True
      then have "solved' ! i = q" by (simp add: solved' j_def nth_append)
      then show ?thesis using qj qc [of c] c True ls' by (cases "c = j") (simp_all add: j_def)
    next
      case False
      then have ij: "i < j" using i ls' by (simp add: j_def)
      then have si: "solved' ! i = eliminate j q (solved ! i)"
        by (simp add: solved' j_def nth_append)
      have mem: "solved ! i \<in> set solved \<union> set rest" using ij by (simp add: j_def)
      have cj: "c \<le> j" using c ls' by (simp add: j_def)
      from elim_c [OF mem this] si
      have "solved' ! i ! c = (if c = j then 0 else solved ! i ! c)" by simp
      moreover have "solved ! i ! c = (if c = i then 1 else 0)" if "c < j"
        using unit ij that by (simp add: j_def)
      ultimately show ?thesis using ij cj by (cases "c = j") auto
    qed
  qed
  show "\<forall>r\<in>set pending'. \<forall>c<length solved'. r ! c = 0"
  proof (intro ballI allI impI)
    fix r' c assume "r' \<in> set pending'" and c: "c < length solved'"
    then obtain r where r: "r \<in> set rest" "r' = eliminate j q r"
      by (auto simp: pending' j_def)
    have "c \<le> j" using c ls' by (simp add: j_def)
    moreover have "r ! c = 0" if "c < j"
      using zero setp r(1) that by (simp add: j_def)
    ultimately show "r' ! c = 0"
      using elim_c [of r c] r by (cases "c = j") auto
  qed
qed

lemma gauss_jordan_sound:
  fixes solved pending :: "'a::field list list"
  assumes "gauss_jordan k solved pending = Some res"
    and "\<forall>r\<in>set solved \<union> set pending. length r = n + n"
    and "length solved + k = n" and "length pending = k"
    and "\<forall>r\<in>set solved \<union> set pending. vecmat (drop n r) A = take n r"
    and "\<forall>i<length solved. \<forall>c<length solved. solved ! i ! c = (if c = i then 1 else 0)"
    and "\<forall>r\<in>set pending. \<forall>c<length solved. r ! c = 0"
  shows "length res = n \<and>
         (\<forall>i<n. length (res ! i) = n + n \<and> vecmat (drop n (res ! i)) A = take n (res ! i) \<and>
                (\<forall>c<n. res ! i ! c = (if c = i then 1 else 0)))"
  using assms
proof (induction k arbitrary: solved pending)
  case 0
  then have "res = solved" and "length solved = n" by simp_all
  with 0 show ?case by simp
next
  case (Suc k)
  define j where "j = length solved"
  from Suc.prems(1) obtain p rest where sp: "split_pivot (length solved) pending = Some (p, rest)"
    by (auto split: option.splits)
  define q where "q = vscale (1 / p ! length solved) p"
  define solved' where "solved' = map (eliminate (length solved) q) solved @ [q]"
  define pending' where "pending' = map (eliminate (length solved) q) rest"
  from Suc.prems(1) sp have run: "gauss_jordan k solved' pending' = Some res"
    by (simp add: q_def solved'_def pending'_def Let_def)
  have jn: "length solved < n" using Suc.prems(3) by simp
  note step = pivot_step [OF sp Suc.prems(2) jn Suc.prems(6,7) q_def solved'_def pending'_def]
  from split_pivot_Some [OF sp] have setp: "set pending = insert p (set rest)" by simp
  have len_q: "length q = n + n" using step(1) by (simp add: solved'_def)
  have q_inv: "vecmat (drop n q) A = take n q"
  proof -
    have "vecmat (drop n p) A = take n p" using Suc.prems(5) setp by simp
    then show ?thesis by (simp add: q_def drop_vscale take_vscale vecmat_vscale)
  qed
  have a3: "length solved' + k = n" using Suc.prems(3) step(2) by simp
  have a4: "length pending' = k" using Suc.prems(4) step(3) by simp
  have a5: "\<forall>r\<in>set solved' \<union> set pending'. vecmat (drop n r) A = take n r"
  proof
    fix r' assume "r' \<in> set solved' \<union> set pending'"
    then consider "r' = q"
      | r where "r \<in> set solved \<union> set rest" "r' = eliminate (length solved) q r"
      by (auto simp: solved'_def pending'_def)
    then show "vecmat (drop n r') A = take n r'"
    proof cases
      case 1
      then show ?thesis using q_inv by simp
    next
      case 2
      have "vecmat (drop n r) A = take n r" using Suc.prems(5) setp 2(1) by auto
      moreover have "length r = n + n" using Suc.prems(2) setp 2(1) by auto
      ultimately show ?thesis
        using 2 len_q q_inv by (simp add: vecmat_eliminate)
    qed
  qed
  from Suc.IH [OF run step(1) a3 a4 a5 step(4,5)] show ?case .
qed

lemma dot_take_sum:
  assumes "n \<le> length r" and "length x = n"
  shows "dot (take n r) x = (\<Sum>c<n. r ! c * x ! c)"
proof -
  have "dot (take n r) x = (\<Sum>c<length (take n r). take n r ! c * x ! c)"
    using assms by (intro dot_sum) simp
  also have "\<dots> = (\<Sum>c<n. r ! c * x ! c)"
    using assms by (intro sum.cong) simp_all
  finally show ?thesis .
qed

lemma gauss_jordan_stuck:
  fixes solved pending :: "'a::field list list"
  assumes "split_pivot (length solved) pending = None"
    and "\<forall>r\<in>set solved \<union> set pending. length r = n + n"
    and "length solved < n"
    and "\<forall>i<length solved. \<forall>c<length solved. solved ! i ! c = (if c = i then 1 else 0)"
    and "\<forall>r\<in>set pending. \<forall>c<length solved. r ! c = 0"
  shows "\<exists>x. length x = n \<and> x \<noteq> replicate n 0 \<and>
             (\<forall>r\<in>set solved \<union> set pending. dot (take n r) x = 0)"
proof -
  define j where "j = length solved"
  define x where
    "x = map (\<lambda>c. if c < j then solved ! c ! j else if c = j then - 1 else (0::'a)) [0..<n]"
  have jn: "j < n" using assms(3) by (simp add: j_def)
  have lx: "length x = n" by (simp add: x_def)
  have xc: "x ! c = (if c < j then solved ! c ! j else if c = j then - 1 else 0)" if "c < n" for c
    using that by (simp add: x_def)
  have "x ! j \<noteq> replicate n 0 ! j" using jn xc [of j] by simp
  then have nz: "x \<noteq> replicate n 0" by auto
  have pend: "dot (take n r) x = 0" if "r \<in> set pending" for r
  proof -
    have lr: "length r = n + n" using assms(2) that by simp
    have rj: "r ! j = 0" using split_pivot_None [OF assms(1)] that by (simp add: j_def)
    have rc: "r ! c = 0" if "c < j" for c using assms(5) \<open>r \<in> set pending\<close> that by (simp add: j_def)
    have "dot (take n r) x = (\<Sum>c<n. r ! c * x ! c)"
      using lr lx by (intro dot_take_sum) simp_all
    also have "\<dots> = (\<Sum>c<n. 0)"
    proof (intro sum.cong refl)
      fix c assume "c \<in> {..<n}"
      then have "c < n" by simp
      then show "r ! c * x ! c = 0" using xc [of c] rj rc [of c] by auto
    qed
    finally show ?thesis by simp
  qed
  have solv: "dot (take n r) x = 0" if "r \<in> set solved" for r
  proof -
    from that obtain i where i: "i < j" and r: "r = solved ! i"
      by (auto simp: in_set_conv_nth j_def)
    have lr: "length r = n + n" using assms(2) that by simp
    have rc: "r ! c = (if c = i then 1 else 0)" if "c < j" for c
      using assms(4) i r that by (simp add: j_def)
    have "dot (take n r) x = (\<Sum>c<n. r ! c * x ! c)"
      using lr lx by (intro dot_take_sum) simp_all
    also have "\<dots> = (\<Sum>c<n. (if c = i then r ! j else 0) + (if c = j then - (r ! j) else 0))"
    proof (intro sum.cong refl)
      fix c assume "c \<in> {..<n}"
      then have cn: "c < n" by simp
      consider "c < j" | "c = j" | "j < c" by linarith
      then show "r ! c * x ! c = (if c = i then r ! j else 0) + (if c = j then - (r ! j) else 0)"
      proof cases
        case 1
        then show ?thesis using xc [OF cn] rc [of c] r by auto
      next
        case 2
        then show ?thesis using xc [OF cn] i by auto
      next
        case 3
        then show ?thesis using xc [OF cn] i by auto
      qed
    qed
    also have "\<dots> = (\<Sum>c<n. if c = i then r ! j else 0) + (\<Sum>c<n. if c = j then - (r ! j) else 0)"
      by (rule sum.distrib)
    also have "\<dots> = r ! j + - (r ! j)"
      using i jn by simp
    finally show ?thesis by simp
  qed
  show ?thesis using lx nz pend solv by (intro exI [of _ x]) auto
qed


lemma dot_take_eliminate:
  assumes "length r = length q"
  shows "dot (take n (eliminate j q r)) x = dot (take n r) x - r ! j * dot (take n q) x"
  using assms by (simp add: eliminate_def take_vsub take_vscale dot_vsub dot_vscale)

lemma gauss_jordan_None:
  fixes solved pending :: "'a::field list list"
  assumes "gauss_jordan k solved pending = None"
    and "\<forall>r\<in>set solved \<union> set pending. length r = n + n"
    and "length solved + k = n" and "length pending = k"
    and "\<forall>i<length solved. \<forall>c<length solved. solved ! i ! c = (if c = i then 1 else 0)"
    and "\<forall>r\<in>set pending. \<forall>c<length solved. r ! c = 0"
  shows "\<exists>x. length x = n \<and> x \<noteq> replicate n 0 \<and>
             (\<forall>r\<in>set solved \<union> set pending. dot (take n r) x = 0)"
  using assms
proof (induction k arbitrary: solved pending)
  case 0
  then show ?case by simp
next
  case (Suc k)
  have jn: "length solved < n" using Suc.prems(3) by simp
  show ?case
  proof (cases "split_pivot (length solved) pending")
    case None
    from gauss_jordan_stuck [OF None Suc.prems(2) jn Suc.prems(5,6)] show ?thesis .
  next
    case (Some pr)
    then obtain p rest where sp: "split_pivot (length solved) pending = Some (p, rest)"
      by (cases pr) simp
    define q where "q = vscale (1 / p ! length solved) p"
    define solved' where "solved' = map (eliminate (length solved) q) solved @ [q]"
    define pending' where "pending' = map (eliminate (length solved) q) rest"
    from Suc.prems(1) sp have run: "gauss_jordan k solved' pending' = None"
      by (simp add: q_def solved'_def pending'_def Let_def)
    note step = pivot_step [OF sp Suc.prems(2) jn Suc.prems(5,6) q_def solved'_def pending'_def]
    from split_pivot_Some [OF sp]
    have pj: "p ! length solved \<noteq> 0" and setp: "set pending = insert p (set rest)" by simp_all
    have a3: "length solved' + k = n" using Suc.prems(3) step(2) by simp
    have a4: "length pending' = k" using Suc.prems(4) step(3) by simp
    from Suc.IH [OF run step(1) a3 a4 step(4,5)]
    obtain x where lx: "length x = n" and nz: "x \<noteq> replicate n 0"
      and ker: "\<forall>r\<in>set solved' \<union> set pending'. dot (take n r) x = 0" by blast
    have len_q: "length q = n + n" using step(1) by (simp add: solved'_def)
    have q0: "dot (take n q) x = 0" using ker by (simp add: solved'_def)
    have "p = vscale (p ! length solved) q"
      using pj by (simp add: q_def vscale_def o_def)
    then have "dot (take n p) x = p ! length solved * dot (take n q) x"
      by (metis take_vscale dot_vscale)
    then have p0: "dot (take n p) x = 0" using q0 by simp
    have old0: "dot (take n r) x = 0" if "r \<in> set solved \<union> set rest" for r
    proof -
      have "eliminate (length solved) q r \<in> set solved' \<union> set pending'"
        using that by (auto simp: solved'_def pending'_def)
      then have "dot (take n (eliminate (length solved) q r)) x = 0" using ker by blast
      moreover have "length r = length q" using Suc.prems(2) setp that len_q by auto
      ultimately show ?thesis using q0 by (simp add: dot_take_eliminate)
    qed
    have "\<forall>r\<in>set solved \<union> set pending. dot (take n r) x = 0"
      using p0 old0 setp by auto
    with lx nz show ?thesis by blast
  qed
qed


lemma length_rows_eye [simp]: "length (rows (eye n)) = n"
  by (simp add: eye_def)

lemma vecmat_unit_row:
  fixes A :: "'a::semiring_1 array2"
  assumes "wf_array2 A" and "i < nrows A"
  shows "vecmat (rows (eye (nrows A)) ! i) A = rows A ! i"
proof (rule nth_equalityI)
  show "length (vecmat (rows (eye (nrows A)) ! i) A) = length (rows A ! i)"
    using assms by (simp add: wf_row_length)
next
  fix j assume "j < length (vecmat (rows (eye (nrows A)) ! i) A)"
  then have j: "j < ncols A" by simp
  have le: "length (rows (eye (nrows A)) ! i) = nrows A"
    using assms(2) wf_row_length [OF wf_eye, of i "nrows A"] by simp
  have "vecmat (rows (eye (nrows A)) ! i) A ! j
        = (\<Sum>k<nrows A. rows (eye (nrows A)) ! i ! k * rows A ! k ! j)"
    using le j by (rule nth_vecmat)
  also have "\<dots> = (\<Sum>k<nrows A. if k = i then rows A ! k ! j else 0)"
    using assms(2) by (intro sum.cong) (auto simp: entry_eye)
  also have "\<dots> = rows A ! i ! j" using assms(2) by simp
  finally show "vecmat (rows (eye (nrows A)) ! i) A ! j = rows A ! i ! j" .
qed

lemma augmented_rows:
  fixes A :: "'a::field array2"
  assumes wf: "wf_array2 A" and sq: "nrows A = ncols A"
    and r: "r \<in> set (map2 (@) (rows A) (rows (eye (ncols A))))"
  shows "length r = ncols A + ncols A"
    and "vecmat (drop (ncols A) r) A = take (ncols A) r"
    and "take (ncols A) r \<in> set (rows A)"
proof -
  let ?n = "ncols A"
  have len: "length (rows A) = ?n" using sq by (simp add: nrows_def)
  have lene: "length (rows (eye ?n :: 'a array2)) = ?n"
    using nrows_eye [of ?n] by (simp add: nrows_def)
  from r obtain i where i: "i < ?n" and ri: "r = rows A ! i @ rows (eye ?n) ! i"
    using len lene by (auto simp: in_set_conv_nth)
  have la: "length (rows A ! i) = ?n" using wf i sq by (simp add: wf_row_length)
  have le: "length (rows (eye ?n :: 'a array2) ! i) = ?n"
    using i wf_row_length [OF wf_eye, of i ?n] by simp
  show "length r = ?n + ?n" using ri la le by simp
  show "vecmat (drop ?n r) A = take ?n r"
    using vecmat_unit_row [OF wf, of i] i sq ri la by simp
  show "take ?n r \<in> set (rows A)" using ri la i len by simp
qed

lemma exact_inverse_sound:
  fixes A :: "'a::field array2"
  assumes wf: "wf_array2 A" and sq: "nrows A = ncols A" and inv: "exact_inverse A = Some B"
  shows "wf_array2 B" and "nrows B = ncols A" and "ncols B = ncols A"
    and "matrix_product B A = eye (ncols A)"
proof -
  let ?n = "ncols A"
  let ?aug = "map2 (@) (rows A) (rows (eye ?n))"
  from inv sq obtain res where run: "gauss_jordan ?n [] ?aug = Some res"
    and B: "B = Array2 ?n (map (drop ?n) res)"
    by (auto simp: exact_inverse_def split: option.splits)
  have len_aug: "length ?aug = ?n"
    using sq by (simp add: nrows_def)
  have "length res = ?n \<and>
        (\<forall>i<?n. length (res ! i) = ?n + ?n \<and> vecmat (drop ?n (res ! i)) A = take ?n (res ! i) \<and>
               (\<forall>c<?n. res ! i ! c = (if c = i then 1 else 0)))"
    using run
  proof (rule gauss_jordan_sound)
    show "\<forall>r\<in>set [] \<union> set ?aug. length r = ?n + ?n"
      using augmented_rows(1) [OF wf sq] by simp
    show "\<forall>r\<in>set [] \<union> set ?aug. vecmat (drop ?n r) A = take ?n r"
      using augmented_rows(2) [OF wf sq] by simp
  qed (use sq in \<open>simp_all add: nrows_def\<close>)
  then have lres: "length res = ?n"
    and lrow: "\<And>i. i < ?n \<Longrightarrow> length (res ! i) = ?n + ?n"
    and prod: "\<And>i. i < ?n \<Longrightarrow> vecmat (drop ?n (res ! i)) A = take ?n (res ! i)"
    and unit: "\<And>i c. i < ?n \<Longrightarrow> c < ?n \<Longrightarrow> res ! i ! c = (if c = i then 1 else 0)"
    by simp_all
  show wfB: "wf_array2 B"
    using lres lrow by (auto simp: B wf_array2_def list_all_length)
  show nB: "nrows B = ?n" using lres by (simp add: B nrows_def)
  show cB: "ncols B = ?n" by (simp add: B)
  show "matrix_product B A = eye ?n"
  proof (rule array2_eqI)
    fix i j
    assume "i < nrows (matrix_product B A)" and "j < ncols (matrix_product B A)"
    then have i: "i < ?n" and j: "j < ?n" using nB by simp_all
    have "rows (matrix_product B A) ! i = vecmat (drop ?n (res ! i)) A"
      using i lres by (simp add: matrix_product_def B)
    also have "\<dots> = take ?n (res ! i)" using i by (rule prod)
    finally have "rows (matrix_product B A) ! i ! j = res ! i ! j" using j by simp
    also have "\<dots> = (if j = i then 1 else 0)" using i j by (rule unit)
    finally show "rows (matrix_product B A) ! i ! j = rows (eye ?n) ! i ! j"
      using i j by (auto simp: entry_eye)
  qed (simp_all add: nB)
qed

lemma exact_inverse_None:
  fixes A :: "'a::field array2"
  assumes wf: "wf_array2 A" and sq: "nrows A = ncols A" and inv: "exact_inverse A = None"
  shows "\<exists>x. length x = ncols A \<and> x \<noteq> replicate (ncols A) 0 \<and>
             matvec A x = replicate (nrows A) 0"
proof -
  let ?n = "ncols A"
  let ?aug = "map2 (@) (rows A) (rows (eye ?n))"
  from inv have run: "gauss_jordan ?n [] ?aug = None"
    by (auto simp: exact_inverse_def split: option.splits)
  have len_aug: "length ?aug = ?n"
    using sq by (simp add: nrows_def)
  have "\<exists>x. length x = ?n \<and> x \<noteq> replicate ?n 0 \<and>
            (\<forall>r\<in>set [] \<union> set ?aug. dot (take ?n r) x = 0)"
    using run
  proof (rule gauss_jordan_None)
    show "\<forall>r\<in>set [] \<union> set ?aug. length r = ?n + ?n"
      using augmented_rows(1) [OF wf sq] by simp
  qed (use sq in \<open>simp_all add: nrows_def\<close>)
  then obtain x where lx: "length x = ?n" and nz: "x \<noteq> replicate ?n 0"
    and ker: "\<forall>r\<in>set ?aug. dot (take ?n r) x = 0" by auto
  have "dot a x = 0" if "a \<in> set (rows A)" for a
  proof -
    from that obtain i where i: "i < ?n" and a: "a = rows A ! i"
      using sq by (auto simp: in_set_conv_nth nrows_def)
    have lene: "length (rows (eye ?n :: 'a array2)) = ?n"
      using nrows_eye [of ?n] by (simp add: nrows_def)
    let ?r = "rows A ! i @ rows (eye ?n) ! i"
    have "?aug ! i = ?r" using i sq lene by (simp add: nrows_def)
    then have "?r \<in> set ?aug" using i len_aug by (metis nth_mem)
    then have "dot (take ?n ?r) x = 0" using ker by blast
    moreover have "length (rows A ! i) = ?n" using wf i sq by (simp add: wf_row_length)
    ultimately show ?thesis using a by simp
  qed
  then have "matvec A x = replicate (nrows A) 0"
    by (simp add: matvec_def nrows_def map_replicate_const [symmetric])
  with lx nz show "\<exists>x. length x = ?n \<and> x \<noteq> replicate ?n 0 \<and> matvec A x = replicate (nrows A) 0"
    by blast
qed

section \<open>Exact arithmetic: the Gram matrix of the stimuli\<close>

lemma length_matvec [simp]: "length (matvec A x) = nrows A"
  by (simp add: matvec_def nrows_def)

lemma nth_matvec:
  assumes "wf_array2 A" and "length x = ncols A" and "i < nrows A"
  shows "matvec A x ! i = (\<Sum>k<ncols A. rows A ! i ! k * x ! k)"
proof -
  have "length (rows A ! i) = length x" using assms by (simp add: wf_row_length)
  then have "dot (rows A ! i) x = (\<Sum>k<length (rows A ! i). rows A ! i ! k * x ! k)"
    by (rule dot_sum)
  then show ?thesis using assms by (simp add: matvec_def nrows_def wf_row_length)
qed

lemma dot_self_zero:
  fixes y :: "real list"
  shows "dot y y = 0 \<Longrightarrow> y = replicate (length y) 0"
proof (induction y)
  case Nil
  then show ?case by simp
next
  case (Cons a y)
  have nn: "0 \<le> dot y y" by (induction y) simp_all
  from Cons.prems have "a * a + dot y y = 0" by simp
  moreover have "0 \<le> a * a" by simp
  ultimately have "a * a = 0" and "dot y y = 0" using nn by linarith+
  with Cons.IH show ?case by simp
qed

lemma entry_gram:
  fixes V :: "'a::comm_semiring_0 array2"
  assumes "wf_array2 V" and "a < ncols V" and "b < ncols V"
  shows "rows (matrix_product (transpose_T V) V) ! a ! b
         = (\<Sum>i<nrows V. rows V ! i ! a * rows V ! i ! b)"
proof -
  have "rows (matrix_product (transpose_T V) V) ! a ! b
        = (\<Sum>i<ncols (transpose_T V). rows (transpose_T V) ! a ! i * rows V ! i ! b)"
    using assms by (intro entry_matrix_product) simp_all
  also have "\<dots> = (\<Sum>i<nrows V. rows V ! i ! a * rows V ! i ! b)"
    using assms by (intro sum.cong) (simp_all add: entry_transpose_T)
  finally show ?thesis .
qed

lemma gram_symmetric:
  fixes V :: "'a::comm_semiring_0 array2"
  assumes "wf_array2 V"
  shows "transpose_T (matrix_product (transpose_T V) V) = matrix_product (transpose_T V) V"
  using assms by (simp add: transpose_matrix_product transpose_T_twice)

lemma gram_quadratic_form:
  fixes V :: "real array2"
  assumes wf: "wf_array2 V" and lx: "length x = ncols V"
  shows "dot x (matvec (matrix_product (transpose_T V) V) x) = dot (matvec V x) (matvec V x)"
proof -
  let ?G = "matrix_product (transpose_T V) V"
  let ?d = "ncols V" and ?N = "nrows V"
  let ?v = "\<lambda>i a. rows V ! i ! a"
  have "dot x (matvec ?G x) = (\<Sum>a<?d. x ! a * matvec ?G x ! a)"
    using lx dot_sum [of x "matvec ?G x"] by simp
  also have "\<dots> = (\<Sum>a<?d. x ! a * (\<Sum>b<?d. (\<Sum>i<?N. ?v i a * ?v i b) * x ! b))"
  proof (intro sum.cong refl)
    fix a assume "a \<in> {..<?d}"
    then have a: "a < ?d" by simp
    have "matvec ?G x ! a = (\<Sum>b<ncols ?G. rows ?G ! a ! b * x ! b)"
      using lx a by (intro nth_matvec) simp_all
    also have "\<dots> = (\<Sum>b<?d. (\<Sum>i<?N. ?v i a * ?v i b) * x ! b)"
      using wf a by (intro sum.cong) (simp_all add: entry_gram)
    finally show "x ! a * matvec ?G x ! a = x ! a * (\<Sum>b<?d. (\<Sum>i<?N. ?v i a * ?v i b) * x ! b)"
      by simp
  qed
  also have "\<dots> = (\<Sum>a<?d. \<Sum>b<?d. \<Sum>i<?N. (?v i a * x ! a) * (?v i b * x ! b))"
    by (simp add: sum_distrib_left sum_distrib_right mult_ac)
  also have "\<dots> = (\<Sum>a<?d. \<Sum>i<?N. \<Sum>b<?d. (?v i a * x ! a) * (?v i b * x ! b))"
    by (intro sum.cong refl sum.swap)
  also have "\<dots> = (\<Sum>i<?N. \<Sum>a<?d. \<Sum>b<?d. (?v i a * x ! a) * (?v i b * x ! b))"
    by (rule sum.swap)
  also have "\<dots> = (\<Sum>i<?N. (\<Sum>a<?d. ?v i a * x ! a) * (\<Sum>b<?d. ?v i b * x ! b))"
    by (simp add: sum_product)
  also have "\<dots> = (\<Sum>i<?N. matvec V x ! i * matvec V x ! i)"
    using wf lx by (intro sum.cong) (simp_all add: nth_matvec)
  also have "\<dots> = dot (matvec V x) (matvec V x)"
    using dot_sum [of "matvec V x" "matvec V x"] by simp
  finally show ?thesis .
qed

lemma gram_kernel:
  fixes V :: "real array2"
  assumes wf: "wf_array2 V" and lx: "length x = ncols V"
    and ker: "matvec (matrix_product (transpose_T V) V) x = replicate n 0"
  shows "matvec V x = replicate (nrows V) 0"
proof -
  have "dot x (replicate n (0::real)) = 0"
    by (induction n arbitrary: x) (simp, case_tac x, simp_all)
  then have "dot (matvec V x) (matvec V x) = 0"
    using gram_quadratic_form [OF wf lx] ker by simp
  from dot_self_zero [OF this] show ?thesis by simp
qed

lemma full_column_rank_inverse:
  fixes V :: "real array2"
  assumes wf: "wf_array2 V" and rank: "full_column_rank V"
  shows "\<exists>B. exact_inverse (matrix_product (transpose_T V) V) = Some B"
proof (cases "exact_inverse (matrix_product (transpose_T V) V)")
  case None
  let ?G = "matrix_product (transpose_T V) V"
  have "\<exists>x. length x = ncols ?G \<and> x \<noteq> replicate (ncols ?G) 0 \<and>
            matvec ?G x = replicate (nrows ?G) 0"
    using None by (intro exact_inverse_None) simp_all
  then obtain x where lx: "length x = ncols V" and nz: "x \<noteq> replicate (ncols V) 0"
    and ker: "matvec ?G x = replicate (ncols V) 0" by auto
  from gram_kernel [OF wf lx ker] have "matvec V x = replicate (nrows V) 0" .
  with rank lx have "x = replicate (ncols V) 0" by (simp add: full_column_rank_def)
  with nz show ?thesis by simp
next
  case (Some B)
  then show ?thesis by blast
qed

lemma gram_inverse_two_sided:
  fixes V :: "real array2"
  assumes wf: "wf_array2 V"
    and inv: "exact_inverse (matrix_product (transpose_T V) V) = Some B"
  shows "matrix_product (matrix_product (transpose_T V) V) B = eye (ncols V)"
proof -
  let ?G = "matrix_product (transpose_T V) V"
  let ?d = "ncols V"
  have wfG: "wf_array2 ?G" and sq: "nrows ?G = ncols ?G" by simp_all
  note B = exact_inverse_sound [OF wfG sq inv]
  have wfB: "wf_array2 B" and nB: "nrows B = ?d" and cB: "ncols B = ?d"
    and BG: "matrix_product B ?G = eye ?d" using B by simp_all
  have "transpose_T (matrix_product B ?G) = matrix_product (transpose_T ?G) (transpose_T B)"
    using wfB wfG cB by (intro transpose_matrix_product) simp_all
  then have GBt: "matrix_product ?G (transpose_T B) = eye ?d"
    using BG gram_symmetric [OF wf] by (simp add: transpose_eye)
  have "B = matrix_product B (eye ?d)"
    using wfB cB by (simp add: matrix_product_eye_right)
  also have "\<dots> = matrix_product B (matrix_product ?G (transpose_T B))"
    using GBt by simp
  also have "\<dots> = matrix_product (matrix_product B ?G) (transpose_T B)"
    using wfB wfG cB by (intro matrix_product_assoc [symmetric]) simp_all
  also have "\<dots> = transpose_T B"
    using BG cB by (simp add: matrix_product_eye_left)
  finally have "B = transpose_T B" .
  with GBt show ?thesis by simp
qed

lemma gram_inv_invertible:
  fixes V :: "real array2"
  assumes wf: "wf_array2 V"
    and inv: "exact_inverse (matrix_product (transpose_T V) V) = Some B"
  shows "invertible (matrix_product (transpose_T V) V)"
proof -
  let ?G = "matrix_product (transpose_T V) V"
  have wfG: "wf_array2 ?G" and sq: "nrows ?G = ncols ?G" by simp_all
  note B = exact_inverse_sound [OF wfG sq inv]
  have "wf_array2 B \<and> nrows B = ncols ?G \<and> ncols B = ncols ?G \<and>
        matrix_product B ?G = eye (ncols ?G) \<and> matrix_product ?G B = eye (ncols ?G)"
    using B gram_inverse_two_sided [OF wf inv] by simp
  then show ?thesis unfolding invertible_def by blast
qed

section \<open>The default size\<close>

lemma np_round_nonneg: "0 \<le> x \<Longrightarrow> 0 \<le> np_round x"
  by (auto simp: np_round_def Let_def)

lemma np_round_near:
  assumes "real_of_int s - 1 / 2 < x" and "x < real_of_int s + 1 / 2"
  shows "np_round x = s"
proof (cases "x < real_of_int s")
  case True
  then have f: "\<lfloor>x\<rfloor> = s - 1" using assms by linarith
  then have "1 / 2 < x - of_int \<lfloor>x\<rfloor>" using assms by simp
  then show ?thesis using f by (simp add: np_round_def Let_def)
next
  case False
  then have f: "\<lfloor>x\<rfloor> = s" using assms by linarith
  then have "x - of_int \<lfloor>x\<rfloor> < 1 / 2" using assms by simp
  then show ?thesis using f by (simp add: np_round_def Let_def)
qed

lemma np_round_sqrt:
  fixes n s :: nat
  assumes up: "n \<le> s * s + s" and low: "s * s < n + s \<or> s = 0"
  shows "np_round (sqrt (real n)) = int s"
proof (cases "s = 0")
  case True
  with up have "n = 0" by simp
  with True show ?thesis by (simp add: np_round_def)
next
  case False
  with low have low': "s * s < n + s" by simp
  have "(real s - 1 / 2)\<^sup>2 = real (s * s) - real s + 1 / 4"
    by (simp add: power2_eq_square algebra_simps)
  also have "\<dots> < real n"
  proof -
    have "s * s + 1 \<le> n + s" using low' by simp
    then have "real (s * s + 1) \<le> real (n + s)" by (simp only: of_nat_le_iff)
    then show ?thesis by simp
  qed
  finally have "(real s - 1 / 2)\<^sup>2 < real n" .
  moreover have "0 \<le> real s - 1 / 2" using False by (cases s) simp_all
  ultimately have a: "real s - 1 / 2 < sqrt (real n)"
    by (metis real_less_rsqrt)
  have "real n \<le> real (s * s + s)" using up by (simp only: of_nat_le_iff)
  also have "\<dots> < (real s + 1 / 2)\<^sup>2"
    by (simp add: power2_eq_square algebra_simps)
  finally have "real n < (real s + 1 / 2)\<^sup>2" .
  then have b: "sqrt (real n) < real s + 1 / 2"
    by (intro real_less_lsqrt) simp_all
  from np_round_near [of "int s" "sqrt (real n)"] a b show ?thesis by simp
qed

lemma default_size_near:
  fixes n s :: nat
  assumes "n \<le> s * s + s" and "s * s < n + s \<or> s = 0"
  shows "default_size n = (int s, int s)"
  using np_round_sqrt [OF assms] by (simp add: default_size_def Let_def)

lemma default_size_square: "default_size (s * s) = (int s, int s)"
  by (rule default_size_near) auto

lemma default_size_nonneg:
  "\<exists>s::nat. default_size n = (int s, int s)"
proof -
  have "0 \<le> np_round (sqrt (real n))" by (rule np_round_nonneg) simp
  then obtain s :: nat where "np_round (sqrt (real n)) = int s"
    using nonneg_int_cases by blast
  then show ?thesis by (simp add: default_size_def Let_def)
qed

section \<open>Reshaping and the assignment loop\<close>

lemma reshape_ok:
  "length a = sx * sy \<Longrightarrow>
   reshape a sx sy = Inr (Array2 sy (map (\<lambda>i. take sy (drop (i * sy) a)) [0..<sx]))"
  by (simp add: reshape_def)

lemma reshape_Inr_iff: "(\<exists>g. reshape a sx sy = Inr g) \<longleftrightarrow> sx * sy = length a"
  by (simp add: reshape_def)

lemma reshape_shape:
  assumes "reshape a sx sy = Inr g"
  shows "nrows g = sx" and "ncols g = sy" and "wf_array2 g"
proof -
  from assms have len: "sx * sy = length a"
    and g: "g = Array2 sy (map (\<lambda>i. take sy (drop (i * sy) a)) [0..<sx])"
    by (auto simp: reshape_def split: if_splits)
  show "nrows g = sx" and "ncols g = sy" by (simp_all add: g nrows_def)
  have "length (take sy (drop (i * sy) a)) = sy" if "i < sx" for i
  proof -
    have "(i + 1) * sy \<le> sx * sy" using that by (intro mult_le_mono1) simp
    then have "i * sy + sy \<le> length a" using len by simp
    then show ?thesis by simp
  qed
  then show "wf_array2 g" by (simp add: g wf_array2_def list_all_iff)
qed

lemma reshape_entry:
  assumes "reshape a sx sy = Inr g" and "i < sx" and "j < sy"
  shows "rows g ! i ! j = a ! (i * sy + j)"
proof -
  from assms(1) have len: "sx * sy = length a"
    and g: "g = Array2 sy (map (\<lambda>i. take sy (drop (i * sy) a)) [0..<sx])"
    by (auto simp: reshape_def split: if_splits)
  have "(i + 1) * sy \<le> sx * sy" using assms(2) by (intro mult_le_mono1) simp
  then have "i * sy + j < length a" using len assms(3) by simp
  then show ?thesis using assms(2,3) by (simp add: g)
qed

lemma assign_slices_ok:
  assumes "\<forall>a\<in>set as. length a = sx * sy" and "i + length as \<le> length M"
  shows "assign_slices cast sx sy M i as =
         Inr (take i M @
              map (\<lambda>a. map (map cast) (map (\<lambda>k. take sy (drop (k * sy) a)) [0..<sx])) as @
              drop (i + length as) M)"
  using assms
proof (induction as arbitrary: M i)
  case Nil
  then show ?case by simp
next
  case (Cons a as)
  let ?g = "map (map cast) (map (\<lambda>k. take sy (drop (k * sy) a)) [0..<sx])"
  have i: "i < length M" using Cons.prems(2) by simp
  have r: "reshape a sx sy = Inr (Array2 sy (map (\<lambda>k. take sy (drop (k * sy) a)) [0..<sx]))"
    using Cons.prems(1) by (simp add: reshape_ok)
  have "assign_slices cast sx sy (M[i := ?g]) (Suc i) as =
        Inr (take (Suc i) (M[i := ?g]) @
             map (\<lambda>a. map (map cast) (map (\<lambda>k. take sy (drop (k * sy) a)) [0..<sx])) as @
             drop (Suc i + length as) (M[i := ?g]))"
    using Cons.prems by (intro Cons.IH) simp_all
  moreover have "take (Suc i) (M[i := ?g]) = take i M @ [?g]"
    using i by (simp add: take_Suc_conv_app_nth)
  moreover have "drop (Suc i + length as) (M[i := ?g]) = drop (Suc i + length as) M"
    by simp
  ultimately show ?case using r i by simp
qed

lemma assign_slices_all:
  assumes "\<forall>a\<in>set as. length a = sx * sy" and "length as = length M"
  shows "assign_slices cast sx sy M 0 as =
         Inr (map (\<lambda>a. map (map cast) (map (\<lambda>k. take sy (drop (k * sy) a)) [0..<sx])) as)"
  using assign_slices_ok [of as sx sy 0 M cast] assms by simp

lemma assign_slices_mismatch:
  assumes "as \<noteq> []" and "sx * sy \<noteq> length (hd as)"
  shows "assign_slices cast sx sy M i as = Inl ValueError_reshape"
  using assms by (cases as) (simp_all add: reshape_def)

lemma zeros_ok:
  "0 \<le> sx \<Longrightarrow> 0 \<le> sy \<Longrightarrow>
   zeros d sx sy = Inr (Array3 (d, nat sx, nat sy)
                        (replicate d (replicate (nat sx) (replicate (nat sy) 0))))"
  by (simp add: zeros_def)

lemma astype_id [simp]: "astype (\<lambda>x. x) A = A"
  by (simp add: astype_def)

lemma wf_astype [simp]: "wf_array2 (astype f A) = wf_array2 A"
  by (simp add: astype_def wf_array2_def list_all_iff)

lemma nrows_astype [simp]: "nrows (astype f A) = nrows A"
  by (simp add: astype_def nrows_def)

lemma ncols_astype [simp]: "ncols (astype f A) = ncols A"
  by (simp add: astype_def)

section \<open>The control flow of \<^verbatim>\<open>calculate_map\<close>\<close>

lemma rows_from_entries:
  "rows (from_entries m n f) = map (\<lambda>i. map (\<lambda>j. f i j) [0..<n]) [0..<m]"
  by (simp add: from_entries_def)

lemma nrows_from_entries [simp]: "nrows (from_entries m n f) = m"
  by (simp add: from_entries_def nrows_def)

lemma ncols_from_entries [simp]: "ncols (from_entries m n f) = n"
  by (simp add: from_entries_def)

lemma wf_from_entries [simp]: "wf_array2 (from_entries m n f)"
  by (simp add: from_entries_def wf_array2_def list_all_iff)

lemma entry_from_entries:
  "i < m \<Longrightarrow> j < n \<Longrightarrow> rows (from_entries m n f) ! i ! j = f i j"
  by (simp add: from_entries_def)

lemma matmul_Inr:
  assumes "matmul g A B = Inr C"
  shows "ncols A = nrows B" and "C = from_entries (nrows A) (ncols B) (g A B)"
  using assms by (auto simp: matmul_def split: if_splits)

lemma matmul_gram:
  "matmul gemm (transpose_T V) V
   = Inr (from_entries (ncols V) (ncols V) (gemm (transpose_T V) V))"
  by (simp add: matmul_def)

lemma linalg_inv_Inr:
  assumes "linalg_inv lapack A = Inr B"
  shows "nrows A = ncols A" and "nrows B = ncols A" and "ncols B = ncols A"
    and "wf_array2 B"
  using assms by (auto simp: linalg_inv_def split: if_splits option.splits)

lemma linalg_inv_Inl:
  assumes "linalg_inv lapack A = Inl e"
  shows "e = LinAlgError_singular \<or> e = LinAlgError_not_square"
  using assms by (auto simp: linalg_inv_def split: if_splits option.splits)

lemma gram_inverse_shape:
  assumes "matmul gemm (transpose_T V) V = Inr G" and "linalg_inv lapack G = Inr Gi"
  shows "nrows Gi = ncols V" and "ncols Gi = ncols V"
proof -
  have "ncols G = ncols V" using matmul_Inr(2) [OF assms(1)] by simp
  then show "nrows Gi = ncols V" and "ncols Gi = ncols V"
    using linalg_inv_Inr(2,3) [OF assms(2)] by simp_all
qed

lemma calculate_map_dtype_inv_error:
  assumes "matmul gemm (transpose_T V) V = Inr G" and "linalg_inv lapack G = Inl e"
  shows "calculate_map_dtype gemm lapack gemm_R cast R V sz = Inl e"
  using assms by (simp add: calculate_map_dtype_def)

lemma calculate_map_dtype_rows_mismatch:
  assumes "matmul gemm (transpose_T V) V = Inr G" and "linalg_inv lapack G = Inr Gi"
    and "nrows R \<noteq> nrows V"
  shows "calculate_map_dtype gemm lapack gemm_R cast R V sz = Inl ValueError_matmul"
  using assms gram_inverse_shape [OF assms(1,2)]
  by (simp add: calculate_map_dtype_def matmul_def)

lemma calculate_map_dtype_flat:
  assumes "matmul gemm (transpose_T V) V = Inr G" and "linalg_inv lapack G = Inr Gi"
    and "matmul gemm Gi (transpose_T V) = Inr P" and "matmul gemm_R P R = Inr F"
  shows "calculate_map_dtype gemm lapack gemm_R cast R V sz =
         (case (case sz of None \<Rightarrow> default_size (ncols R) | Some s \<Rightarrow> s) of (sx, sy) \<Rightarrow>
          case zeros (ncols V) sx sy of Inl e \<Rightarrow> Inl e | Inr M \<Rightarrow>
          case assign_slices cast (nat sx) (nat sy) (slices M) 0 (rows F) of
            Inl e \<Rightarrow> Inl e
          | Inr S \<Rightarrow> Inr (Array3 (shape3 M) S))"
  using assms by (simp add: calculate_map_dtype_def)

lemma coefficient_matrix:
  assumes "matmul gemm (transpose_T V) V = Inr G" and "linalg_inv lapack G = Inr Gi"
    and "nrows R = nrows V"
  shows "\<exists>P F. matmul gemm Gi (transpose_T V) = Inr P \<and> matmul gemm_R P R = Inr F \<and>
           nrows F = ncols V \<and> ncols F = ncols R \<and> wf_array2 F"
proof -
  note s = gram_inverse_shape [OF assms(1,2)]
  let ?P = "from_entries (ncols V) (nrows V) (gemm Gi (transpose_T V))"
  let ?F = "from_entries (ncols V) (ncols R) (gemm_R ?P R)"
  have 1: "matmul gemm Gi (transpose_T V) = Inr ?P" using s by (simp add: matmul_def)
  have 2: "matmul gemm_R ?P R = Inr ?F" using assms(3) by (simp add: matmul_def)
  from 1 2 show ?thesis by (intro exI [of _ ?P] exI [of _ ?F]) simp
qed

lemma coefficient_rows:
  assumes "nrows F = d" and "ncols F = n" and "wf_array2 F"
  shows "length (rows F) = d" and "\<forall>a\<in>set (rows F). length a = n"
  using assms by (simp_all add: nrows_def wf_array2_def list_all_iff)

lemma calculate_map_dtype_ok:
  assumes "matmul gemm (transpose_T V) V = Inr G" and "linalg_inv lapack G = Inr Gi"
    and "matmul gemm Gi (transpose_T V) = Inr P" and "matmul gemm_R P R = Inr F"
    and "(case sz of None \<Rightarrow> default_size (ncols R) | Some s \<Rightarrow> s) = (sx, sy)"
    and "0 \<le> sx" and "0 \<le> sy" and "ncols R = nat sx * nat sy"
  shows "calculate_map_dtype gemm lapack gemm_R cast R V sz =
         Inr (Array3 (ncols V, nat sx, nat sy)
               (map (\<lambda>a. map (map cast) (map (\<lambda>k. take (nat sy) (drop (k * nat sy) a)) [0..<nat sx]))
                  (rows F)))"
proof -
  note s = gram_inverse_shape [OF assms(1,2)]
  have P: "P = from_entries (nrows Gi) (ncols (transpose_T V)) (gemm Gi (transpose_T V))"
    by (rule matmul_Inr(2) [OF assms(3)])
  have F: "F = from_entries (nrows P) (ncols R) (gemm_R P R)"
    by (rule matmul_Inr(2) [OF assms(4)])
  have "nrows F = ncols V" "ncols F = ncols R" "wf_array2 F"
    using s by (simp_all add: F P)
  note rws = coefficient_rows [OF this]
  have "assign_slices cast (nat sx) (nat sy)
          (replicate (ncols V) (replicate (nat sx) (replicate (nat sy) 0))) 0 (rows F)
        = Inr (map (\<lambda>a. map (map cast) (map (\<lambda>k. take (nat sy) (drop (k * nat sy) a)) [0..<nat sx]))
                 (rows F))"
    using rws assms(8) by (intro assign_slices_all) simp_all
  then show ?thesis
    using assms(5,6,7) by (simp add: calculate_map_dtype_flat [OF assms(1,2,3,4)] zeros_ok)
qed

lemma calculate_map_dtype_reshape_error:
  assumes "matmul gemm (transpose_T V) V = Inr G" and "linalg_inv lapack G = Inr Gi"
    and "nrows R = nrows V"
    and "(case sz of None \<Rightarrow> default_size (ncols R) | Some s \<Rightarrow> s) = (sx, sy)"
    and "0 \<le> sx" and "0 \<le> sy" and "ncols R \<noteq> nat sx * nat sy" and "0 < ncols V"
  shows "calculate_map_dtype gemm lapack gemm_R cast R V sz = Inl ValueError_reshape"
proof -
  from coefficient_matrix [OF assms(1,2,3), of gemm_R] obtain P F
    where P: "matmul gemm Gi (transpose_T V) = Inr P" and F: "matmul gemm_R P R = Inr F"
      and sh: "nrows F = ncols V" "ncols F = ncols R" "wf_array2 F"
    by blast
  note rws = coefficient_rows [OF sh]
  have ne: "rows F \<noteq> []" using rws(1) assms(8) by auto
  then have "hd (rows F) \<in> set (rows F)" by simp
  then have "length (hd (rows F)) = ncols R" using rws(2) by blast
  then have "nat sx * nat sy \<noteq> length (hd (rows F))" using assms(7) by simp
  from assign_slices_mismatch [OF ne this]
  show ?thesis
    using assms(4,5,6) by (simp add: calculate_map_dtype_flat [OF assms(1,2) P F] zeros_ok)
qed

lemma calculate_map_dtype_no_columns:
  assumes "matmul gemm (transpose_T V) V = Inr G" and "linalg_inv lapack G = Inr Gi"
    and "nrows R = nrows V"
    and "(case sz of None \<Rightarrow> default_size (ncols R) | Some s \<Rightarrow> s) = (sx, sy)"
    and "0 \<le> sx" and "0 \<le> sy" and "ncols V = 0"
  shows "calculate_map_dtype gemm lapack gemm_R cast R V sz = Inr (Array3 (0, nat sx, nat sy) [])"
proof -
  from coefficient_matrix [OF assms(1,2,3), of gemm_R] obtain P F
    where P: "matmul gemm Gi (transpose_T V) = Inr P" and F: "matmul gemm_R P R = Inr F"
      and sh: "nrows F = ncols V" "ncols F = ncols R" "wf_array2 F"
    by blast
  have "rows F = []" using coefficient_rows(1) [OF sh] assms(7) by simp
  then show ?thesis
    using assms(4,5,6,7) by (simp add: calculate_map_dtype_flat [OF assms(1,2) P F] zeros_ok)
qed

lemma assign_slices_errors:
  "assign_slices cast sx sy M i as = Inl e \<Longrightarrow> e = ValueError_reshape \<or> e = IndexError"
proof (induction as arbitrary: M i)
  case Nil
  then show ?case by simp
next
  case (Cons a as)
  then show ?case
    by (auto simp: reshape_def split: if_splits)
qed

lemma calculate_map_dtype_Inr:
  assumes "calculate_map_dtype gemm lapack gemm_R cast R V sz = Inr M"
  shows "\<exists>G Gi P F sx sy.
           matmul gemm (transpose_T V) V = Inr G \<and> linalg_inv lapack G = Inr Gi \<and>
           matmul gemm Gi (transpose_T V) = Inr P \<and> matmul gemm_R P R = Inr F \<and>
           (case sz of None \<Rightarrow> default_size (ncols R) | Some s \<Rightarrow> s) = (int sx, int sy) \<and>
           (ncols V = 0 \<or> ncols R = sx * sy) \<and>
           M = Array3 (ncols V, sx, sy)
                 (map (\<lambda>a. map (map cast) (map (\<lambda>k. take sy (drop (k * sy) a)) [0..<sx]))
                    (rows F))"
proof -
  let ?G = "from_entries (ncols V) (ncols V) (gemm (transpose_T V) V)"
  have G: "matmul gemm (transpose_T V) V = Inr ?G" by (rule matmul_gram)
  obtain Gi where Gi: "linalg_inv lapack ?G = Inr Gi"
    using assms calculate_map_dtype_inv_error [OF G, of lapack _ gemm_R cast R sz]
    by (cases "linalg_inv lapack ?G") simp_all
  have rows: "nrows R = nrows V"
    using assms calculate_map_dtype_rows_mismatch [OF G Gi, of R gemm_R cast sz] by auto
  from coefficient_matrix [OF G Gi rows, of gemm_R] obtain P F
    where P: "matmul gemm Gi (transpose_T V) = Inr P" and F: "matmul gemm_R P R = Inr F"
      and sh: "nrows F = ncols V" "ncols F = ncols R" "wf_array2 F"
    by blast
  note rws = coefficient_rows [OF sh]
  obtain zx zy where s: "(case sz of None \<Rightarrow> default_size (ncols R) | Some s \<Rightarrow> s) = (zx, zy)"
    by (cases "case sz of None \<Rightarrow> default_size (ncols R) | Some s \<Rightarrow> s")
  have nonneg: "0 \<le> zx \<and> 0 \<le> zy"
    using assms s by (auto simp: calculate_map_dtype_flat [OF G Gi P F] zeros_def split: if_splits)
  then obtain sx sy where z: "zx = int sx" "zy = int sy"
    using nonneg_int_cases by metis
  have dims: "ncols V = 0 \<or> ncols R = sx * sy"
  proof (rule ccontr)
    assume "\<not> (ncols V = 0 \<or> ncols R = sx * sy)"
    then have "0 < ncols V" "ncols R \<noteq> nat zx * nat zy" using z by simp_all
    from calculate_map_dtype_reshape_error [OF G Gi rows s _ _ this(2,1), of gemm_R cast] nonneg assms
    show False by simp
  qed
  have M: "M = Array3 (ncols V, sx, sy)
                 (map (\<lambda>a. map (map cast) (map (\<lambda>k. take sy (drop (k * sy) a)) [0..<sx]))
                    (rows F))"
  proof (cases "ncols V = 0")
    case True
    then have "rows F = []" using rws(1) by simp
    with calculate_map_dtype_no_columns [OF G Gi rows s _ _ True, of gemm_R cast] nonneg assms z True
    show ?thesis by simp
  next
    case False
    with dims have "ncols R = nat zx * nat zy" using z by simp
    from calculate_map_dtype_ok [OF G Gi P F s _ _ this, of cast] nonneg assms z
    show ?thesis by simp
  qed
  from G Gi P F s z dims M show ?thesis by blast
qed

section \<open>Exact arithmetic as the library\<close>

text \<open>
  With the exact product and the exact inverse for the library parameters, \<^verbatim>\<open>@\<close> is the
  matrix product of linear algebra and \<^verbatim>\<open>np.linalg.inv\<close> raises exactly for the singular
  matrices.  The least-squares formula then recovers the coefficients from noiseless
  responses.  These are identities of linear algebra: in \<^verbatim>\<open>float64\<close> the Gram matrix is
  rounded, and stimuli of full column rank can have a singular computed Gram matrix and
  the reverse.
\<close>

lemma matmul_exact_product:
  fixes A B :: "'a::semiring_0 array2"
  assumes "ncols A = nrows B"
  shows "matmul exact_product A B = Inr (matrix_product A B)"
proof -
  have "from_entries (nrows A) (ncols B) (exact_product A B) = matrix_product A B"
    by (rule array2_eqI) (simp_all add: entry_from_entries exact_product_def)
  then show ?thesis using assms by (simp add: matmul_def)
qed

lemma linalg_inv_exact_lapack:
  assumes "wf_array2 A" and "nrows A = ncols A"
  shows "linalg_inv exact_lapack A =
         (case exact_inverse A of None \<Rightarrow> Inl LinAlgError_singular | Some B \<Rightarrow> Inr B)"
proof (cases "exact_inverse A")
  case None
  then show ?thesis using assms(2) by (simp add: linalg_inv_def exact_lapack_def)
next
  case (Some B)
  note B = exact_inverse_sound [OF assms Some]
  have "from_entries (ncols A) (ncols A) (\<lambda>i j. rows B ! i ! j) = B"
    using B(1,2,3) by (intro array2_eqI) (simp_all add: entry_from_entries)
  then show ?thesis using assms(2) Some by (simp add: linalg_inv_def exact_lapack_def)
qed

lemma least_squares_recovers:
  fixes V M0 :: "real array2"
  assumes wfV: "wf_array2 V" and wfM: "wf_array2 M0" and dim: "nrows M0 = ncols V"
    and inv: "exact_inverse (matrix_product (transpose_T V) V) = Some Gi"
  shows "matrix_product (matrix_product Gi (transpose_T V)) (matrix_product V M0) = M0"
proof -
  let ?G = "matrix_product (transpose_T V) V"
  note Gi = exact_inverse_sound [OF _ _ inv, simplified]
  have "matrix_product (matrix_product Gi (transpose_T V)) (matrix_product V M0)
        = matrix_product (matrix_product (matrix_product Gi (transpose_T V)) V) M0"
    using wfV dim by (intro matrix_product_assoc [symmetric]) simp_all
  also have "matrix_product (matrix_product Gi (transpose_T V)) V = matrix_product Gi ?G"
    using Gi by (intro matrix_product_assoc) simp_all
  also have "\<dots> = eye (ncols V)" using Gi by simp
  also have "matrix_product (eye (ncols V)) M0 = M0"
    using wfM dim by (rule matrix_product_eye_left)
  finally show ?thesis .
qed

lemma exact_round_trip:
  assumes "wf_array2 V" and "full_column_rank V"
    and "wf_array2 M0" and "nrows M0 = ncols V" and "ncols M0 = s * s"
  shows "calculate_map exact_product zgemm exact_lapack (Float64 (matrix_product V M0)) V None
         = Inr (Array3 (ncols V, s, s)
                  (map (\<lambda>a. map (\<lambda>k. take s (drop (k * s) a)) [0..<s]) (rows M0)))"
proof -
  let ?G = "matrix_product (transpose_T V) V"
  let ?R = "matrix_product V M0"
  from full_column_rank_inverse [OF assms(1,2)] obtain Gi
    where inv: "exact_inverse ?G = Some Gi" by blast
  note Gi = exact_inverse_sound [OF _ _ inv, simplified]
  have 1: "matmul exact_product (transpose_T V) V = Inr ?G"
    by (simp add: matmul_exact_product)
  have 2: "linalg_inv exact_lapack ?G = Inr Gi"
    using inv by (simp add: linalg_inv_exact_lapack)
  have 3: "matmul exact_product Gi (transpose_T V) = Inr (matrix_product Gi (transpose_T V))"
    using Gi by (simp add: matmul_exact_product)
  have 4: "matmul exact_product (matrix_product Gi (transpose_T V)) ?R = Inr M0"
    using least_squares_recovers [OF assms(1,3,4) inv] by (simp add: matmul_exact_product)
  have 5: "(case None of None \<Rightarrow> default_size (ncols ?R) | Some s \<Rightarrow> s) = (int s, int s)"
    using assms(5) by (simp add: default_size_square)
  from calculate_map_dtype_ok [OF 1 2 3 4 5, of "\<lambda>x. x"] assms(5)
  show ?thesis by (simp add: calculate_map_def)
qed

section \<open>The result of \<^verbatim>\<open>calculate_map\<close>\<close>



section \<open>The size when it is omitted\<close>

text \<open>
  Claim C4 does not hold as stated: with ten response columns and no size, the call need
  not fail with the \<^verbatim>\<open>ValueError\<close> of \<^verbatim>\<open>reshape\<close>.  For the \<open>1 \<times> 1\<close> stimuli \<open>[[0]]\<close> the
  inverse is computed first and raises \<^verbatim>\<open>LinAlgError\<close>; for stimuli of shape \<open>(1, 0)\<close> the
  coefficient matrix has no rows, the loop body with the \<^verbatim>\<open>reshape\<close> never runs, and the
  call returns an empty array of shape \<open>(0, 3, 3)\<close>.  No rounding occurs on these inputs,
  so the library computes what exact arithmetic does.
\<close>

theorem calculate_map_default_size_counterexample:
  "calculate_map exact_product exact_complex_product exact_lapack
       (Float64 (Array2 10 [[1, 2, 3, 4, 5, 6, 7, 8, 9, 10]])) (Array2 1 [[0]]) None
     = Inl LinAlgError_singular \<and>
   calculate_map exact_product exact_complex_product exact_lapack
       (Float64 (Array2 10 [[1, 2, 3, 4, 5, 6, 7, 8, 9, 10]])) (Array2 0 [[]]) None
     = Inr (Array3 (0, 3, 3) [])"
proof -
  let ?R = "Array2 10 [[1, 2, 3, 4, 5, 6, 7, 8, 9, 10::real]]"
  let ?V = "Array2 1 [[0::real]]"
  let ?W = "Array2 0 [[]::real list]"
  have g: "matmul exact_product (transpose_T ?V) ?V = Inr ?V" by code_simp
  have "linalg_inv exact_lapack ?V = Inl LinAlgError_singular" by code_simp
  from calculate_map_dtype_inv_error [OF g this]
  have a: "calculate_map exact_product exact_complex_product exact_lapack (Float64 ?R) ?V None
           = Inl LinAlgError_singular"
    by (simp add: calculate_map_def)
  have gw: "matmul exact_product (transpose_T ?W) ?W = Inr (Array2 0 [])" by code_simp
  have inv: "linalg_inv exact_lapack (Array2 0 []) = Inr (Array2 0 [])" by code_simp
  have n: "nrows ?R = nrows ?W" by (simp add: nrows_def)
  have "default_size 10 = (3, 3)" using default_size_near [of 10 3] by simp
  then have s: "(case None of None \<Rightarrow> default_size (ncols ?R) | Some s \<Rightarrow> s) = (3, 3)" by simp
  have "calculate_map_dtype exact_product exact_lapack exact_product (\<lambda>x. x) ?R ?W None
        = Inr (Array3 (0, nat 3, nat 3) [])"
    using gw inv n s by (rule calculate_map_dtype_no_columns) simp_all
  then have b: "calculate_map exact_product exact_complex_product exact_lapack (Float64 ?R) ?W None
                = Inr (Array3 (0, 3, 3) [])"
    by (simp add: calculate_map_def)
  from a b show ?thesis by simp
qed

text \<open>
  Claim C4, amended.  With the size omitted the side of the square is
  \<open>s = round(sqrt(n))\<close>, which is not negative.  In a call in which \<^verbatim>\<open>np.linalg.inv\<close>
  returns, the stimuli have at least one column and the responses have as many rows as
  the stimuli, the result has shape \<open>(d, s, s)\<close> when \<open>s * s = n\<close>, and the call fails with
  the \<^verbatim>\<open>ValueError\<close> of \<^verbatim>\<open>reshape\<close> otherwise; in particular it fails so whenever \<open>n\<close> is not
  a perfect square.
\<close>

theorem calculate_map_default_size:
  assumes "matmul gemm (transpose_T V) V = Inr G"
    and "linalg_inv lapack G = Inr Gi"
    and "nrows R = nrows V" and "0 < ncols V"
  shows "\<exists>s::nat. default_size (ncols R) = (int s, int s) \<and>
           int s = np_round (sqrt (real (ncols R))) \<and>
           (if s * s = ncols R
            then \<exists>M. calculate_map gemm zgemm lapack (Float64 R) V None = Inr M \<and>
                     shape3 M = (ncols V, s, s)
            else calculate_map gemm zgemm lapack (Float64 R) V None = Inl ValueError_reshape) \<and>
           ((\<nexists>m. ncols R = m * m) \<longrightarrow>
              calculate_map gemm zgemm lapack (Float64 R) V None = Inl ValueError_reshape)"
proof -
  from default_size_nonneg [of "ncols R"] obtain s :: nat
    where s: "default_size (ncols R) = (int s, int s)" by blast
  then have r: "int s = np_round (sqrt (real (ncols R)))"
    by (simp add: default_size_def Let_def)
  have sz: "(case None of None \<Rightarrow> default_size (ncols R) | Some s \<Rightarrow> s) = (int s, int s)"
    using s by simp
  from coefficient_matrix [OF assms(1,2,3), of gemm] obtain P F
    where P: "matmul gemm Gi (transpose_T V) = Inr P" and F: "matmul gemm P R = Inr F"
    by blast
  have ok: "\<exists>M. calculate_map gemm zgemm lapack (Float64 R) V None = Inr M \<and>
                shape3 M = (ncols V, s, s)"
    if "s * s = ncols R"
    using calculate_map_dtype_ok [OF assms(1,2) P F sz, of "\<lambda>x. x"] that
    by (simp add: calculate_map_def)
  have bad: "calculate_map gemm zgemm lapack (Float64 R) V None = Inl ValueError_reshape"
    if "s * s \<noteq> ncols R"
    using calculate_map_dtype_reshape_error [OF assms(1,2,3) sz _ _ _ assms(4),
        of gemm "\<lambda>x. x"] that
    by (simp add: calculate_map_def)
  have "calculate_map gemm zgemm lapack (Float64 R) V None = Inl ValueError_reshape"
    if "\<nexists>m. ncols R = m * m"
  proof -
    from that have "s * s \<noteq> ncols R" by metis
    then show ?thesis by (rule bad)
  qed
  with s r ok bad show ?thesis by (intro exI [of _ s]) simp
qed

theorem calculate_map_default_size_witness:
  "matmul exact_product (transpose_T (Array2 1 [[1::real]])) (Array2 1 [[1]])
     = Inr (Array2 1 [[1]]) \<and>
   linalg_inv exact_lapack (Array2 1 [[1]]) = Inr (Array2 1 [[1]]) \<and>
   (\<nexists>m::nat. 10 = m * m) \<and>
   calculate_map exact_product exact_complex_product exact_lapack
       (Float64 (Array2 10 [[1, 2, 3, 4, 5, 6, 7, 8, 9, 10]])) (Array2 1 [[1]]) None
     = Inl ValueError_reshape"
proof -
  let ?V = "Array2 1 [[1::real]]"
  let ?R = "Array2 10 [[1, 2, 3, 4, 5, 6, 7, 8, 9, 10::real]]"
  have h1: "matmul exact_product (transpose_T ?V) ?V = Inr ?V" by code_simp
  have h2: "linalg_inv exact_lapack ?V = Inr ?V" by code_simp
  have h3: "nrows ?R = nrows ?V" by (simp add: nrows_def)
  have h4: "0 < ncols ?V" by simp
  have ns: "\<nexists>m::nat. 10 = m * m"
  proof
    assume "\<exists>m::nat. 10 = m * m"
    then obtain m :: nat where m: "10 = m * m" by blast
    show False
    proof (cases "m \<le> 3")
      case True
      then consider "m = 0" | "m = 1" | "m = 2" | "m = 3" by linarith
      then show False using m by cases simp_all
    next
      case False
      then have "4 * 4 \<le> m * m" by (intro mult_le_mono) simp_all
      with m show False by simp
    qed
  qed
  from calculate_map_default_size [OF h1 h2 h3 h4, of exact_complex_product] ns
  have "calculate_map exact_product exact_complex_product exact_lapack (Float64 ?R) ?V None
        = Inl ValueError_reshape" by auto
  with h1 h2 ns show ?thesis by blast
qed

section \<open>Complex responses\<close>

lemma reshape_map:
  "reshape (map f a) sx sy =
   (case reshape a sx sy of Inl e \<Rightarrow> Inl e | Inr g \<Rightarrow> Inr (astype f g))"
  by (simp add: reshape_def astype_def take_map drop_map)

lemma assign_slices_cast:
  "assign_slices (\<lambda>x. x) sx sy M i (map (map f) as) = assign_slices f sx sy M i as"
proof (induction as arbitrary: M i)
  case Nil
  then show ?case by simp
next
  case (Cons a as)
  then show ?case
    by (simp add: reshape_map astype_def split: sum.splits)
qed

lemma rows_real_part:
  assumes "\<forall>i j. i < m \<longrightarrow> j < n \<longrightarrow> Re (f i j) = g i j"
  shows "rows (from_entries m n g) = map (map Re) (rows (from_entries m n f))"
  using assms by (simp add: from_entries_def)

lemma calculate_map_dtype_real_part:
  assumes "\<forall>(P::real array2) i j. i < nrows P \<longrightarrow> j < ncols R \<longrightarrow>
             Re (zgemm P R i j) = gemm P (astype Re R) i j"
  shows "calculate_map_dtype gemm lapack zgemm Re R V sz
         = calculate_map_dtype gemm lapack gemm (\<lambda>x. x) (astype Re R) V sz"
proof -
  let ?G = "from_entries (ncols V) (ncols V) (gemm (transpose_T V) V)"
  have G: "matmul gemm (transpose_T V) V = Inr ?G" by (rule matmul_gram)
  show ?thesis
  proof (cases "linalg_inv lapack ?G")
    case (Inl e)
    then show ?thesis by (simp add: calculate_map_dtype_inv_error [OF G])
  next
    case (Inr Gi)
    show ?thesis
    proof (cases "nrows R = nrows V")
      case False
      then show ?thesis
        using calculate_map_dtype_rows_mismatch [OF G Inr, of R zgemm Re sz]
          calculate_map_dtype_rows_mismatch [OF G Inr, of "astype Re R" gemm "\<lambda>x. x" sz]
        by simp
    next
      case True
      note s = gram_inverse_shape [OF G Inr]
      let ?P = "from_entries (ncols V) (nrows V) (gemm Gi (transpose_T V))"
      let ?Fc = "from_entries (ncols V) (ncols R) (zgemm ?P R)"
      let ?Fr = "from_entries (ncols V) (ncols R) (gemm ?P (astype Re R))"
      have P: "matmul gemm Gi (transpose_T V) = Inr ?P" using s by (simp add: matmul_def)
      have Fc: "matmul zgemm ?P R = Inr ?Fc" using True by (simp add: matmul_def)
      have Fr: "matmul gemm ?P (astype Re R) = Inr ?Fr" using True by (simp add: matmul_def)
      have "\<forall>i j. i < ncols V \<longrightarrow> j < ncols R \<longrightarrow> Re (zgemm ?P R i j) = gemm ?P (astype Re R) i j"
        using assms by simp
      then have rws: "rows ?Fr = map (map Re) (rows ?Fc)" by (rule rows_real_part)
      show ?thesis
        unfolding calculate_map_dtype_flat [OF G Inr P Fc]
          calculate_map_dtype_flat [OF G Inr P Fr] ncols_astype rws assign_slices_cast
        by (rule refl)
    qed
  qed
qed

lemma Re_dot_of_real:
  "Re (dot (map complex_of_real p) r) = dot p (map Re r)"
proof (induction p arbitrary: r)
  case Nil
  then show ?case by simp
next
  case (Cons a p)
  then show ?case by (cases r) simp_all
qed

lemma transpose_astype:
  assumes "wf_array2 R"
  shows "transpose_T (astype f R) = astype f (transpose_T R)"
proof -
  have "map (\<lambda>r. r ! j) (map (map f) (rows R)) = map f (map (\<lambda>r. r ! j) (rows R))"
    if "j < ncols R" for j
    using assms that by (simp add: wf_array2_def list_all_iff)
  then show ?thesis
    by (simp add: transpose_T_def astype_def nrows_def)
qed

lemma Re_vecmat_of_real:
  assumes "wf_array2 R"
  shows "map Re (vecmat (map complex_of_real p) R) = vecmat p (astype Re R)"
proof -
  have "vecmat p (astype Re R) = map (dot p) (rows (astype Re (transpose_T R)))"
    by (simp add: vecmat_def transpose_astype [OF assms])
  also have "\<dots> = map (\<lambda>c. dot p (map Re c)) (rows (transpose_T R))"
    by (simp add: astype_def o_def)
  also have "\<dots> = map Re (vecmat (map complex_of_real p) R)"
    by (simp add: vecmat_def Re_dot_of_real o_def)
  finally show ?thesis by simp
qed

lemma Re_exact_complex_product:
  assumes "wf_array2 R" and "i < nrows P" and "j < ncols R"
  shows "Re (exact_complex_product P R i j) = exact_product P (astype Re R) i j"
proof -
  have "Re (exact_complex_product P R i j)
        = Re (vecmat (map complex_of_real (rows P ! i)) R ! j)"
    using assms(2) by (simp add: exact_complex_product_def matrix_product_def astype_def nrows_def)
  also have "\<dots> = map Re (vecmat (map complex_of_real (rows P ! i)) R) ! j"
    using assms(3) by simp
  also have "\<dots> = vecmat (rows P ! i) (astype Re R) ! j"
    by (simp only: Re_vecmat_of_real [OF assms(1)])
  also have "\<dots> = exact_product P (astype Re R) i j"
    using assms(2) by (simp add: exact_product_def matrix_product_def nrows_def)
  finally show ?thesis .
qed

text \<open>
  Claim C10.  The result of \<^verbatim>\<open>calculate_map\<close> is a \<^verbatim>\<open>float64\<close> array whatever the dtype of
  the responses.  For complex responses the coefficient matrix is complex, and the
  assignment into the real array \<open>M\<close> keeps only the real parts: each slice of a
  successful result is the real part of a row of the complex coefficient matrix,
  reshaped.  The imaginary parts of the coefficients are not returned.  Moreover, when
  the real parts of the library's product with the complex responses are its product with
  the real parts of the responses, as in exact arithmetic, the imaginary parts of the
  responses have no influence at all: the call behaves exactly as it does on the real
  parts of the responses.
\<close>

theorem calculate_map_discards_imaginary:
  "((\<forall>(P::real array2) i j. i < nrows P \<longrightarrow> j < ncols R \<longrightarrow>
        Re (zgemm P R i j) = gemm P (astype Re R) i j) \<longrightarrow>
      calculate_map gemm zgemm lapack (Complex128 R) V sz
      = calculate_map gemm zgemm lapack (Float64 (astype Re R)) V sz) \<and>
   (\<forall>M. calculate_map gemm zgemm lapack (Complex128 R) V sz = Inr M \<longrightarrow>
      (\<exists>G Gi P F sx sy.
         matmul gemm (transpose_T V) V = Inr G \<and> linalg_inv lapack G = Inr Gi \<and>
         matmul gemm Gi (transpose_T V) = Inr P \<and> matmul zgemm P R = Inr F \<and>
         shape3 M = (ncols V, sx, sy) \<and> length (slices M) = ncols V \<and>
         (\<forall>i<ncols V.
            reshape (map Re (rows F ! i)) sx sy = Inr (Array2 sy (slices M ! i)))))"
proof (intro conjI allI impI)
  assume "\<forall>(P::real array2) i j. i < nrows P \<longrightarrow> j < ncols R \<longrightarrow>
            Re (zgemm P R i j) = gemm P (astype Re R) i j"
  then have "calculate_map_dtype gemm lapack zgemm Re R V sz
             = calculate_map_dtype gemm lapack gemm (\<lambda>x. x) (astype Re R) V sz"
    by (rule calculate_map_dtype_real_part)
  then show "calculate_map gemm zgemm lapack (Complex128 R) V sz
        = calculate_map gemm zgemm lapack (Float64 (astype Re R)) V sz"
    by (simp add: calculate_map_def)
next
  fix M assume "calculate_map gemm zgemm lapack (Complex128 R) V sz = Inr M"
  then have "calculate_map_dtype gemm lapack zgemm Re R V sz = Inr M"
    by (simp add: calculate_map_def)
  from calculate_map_dtype_Inr [OF this] obtain G Gi P F sx sy
    where G: "matmul gemm (transpose_T V) V = Inr G" and Gi: "linalg_inv lapack G = Inr Gi"
      and P: "matmul gemm Gi (transpose_T V) = Inr P" and F: "matmul zgemm P R = Inr F"
      and dims: "ncols V = 0 \<or> ncols R = sx * sy"
      and M: "M = Array3 (ncols V, sx, sy)
                 (map (\<lambda>a. map (map Re) (map (\<lambda>k. take sy (drop (k * sy) a)) [0..<sx]))
                    (rows F))"
    by blast
  note s = gram_inverse_shape [OF G Gi]
  have "nrows F = ncols V" "ncols F = ncols R" "wf_array2 F"
    using s by (simp_all add: matmul_Inr(2) [OF F] matmul_Inr(2) [OF P])
  note rws = coefficient_rows [OF this]
  have 1: "shape3 M = (ncols V, sx, sy)" by (simp add: M)
  have 2: "length (slices M) = ncols V" using rws(1) by (simp add: M)
  have 3: "\<forall>i<ncols V. reshape (map Re (rows F ! i)) sx sy = Inr (Array2 sy (slices M ! i))"
  proof (intro allI impI)
    fix i assume i: "i < ncols V"
    then have "rows F ! i \<in> set (rows F)" using rws(1) by simp
    then have "length (rows F ! i) = sx * sy" using rws(2) dims i by auto
    then show "reshape (map Re (rows F ! i)) sx sy = Inr (Array2 sy (slices M ! i))"
      using i rws(1) by (simp add: reshape_ok M take_map drop_map)
  qed
  from G Gi P F 1 2 3
  show "\<exists>G Gi P F sx sy.
          matmul gemm (transpose_T V) V = Inr G \<and> linalg_inv lapack G = Inr Gi \<and>
          matmul gemm Gi (transpose_T V) = Inr P \<and> matmul zgemm P R = Inr F \<and>
          shape3 M = (ncols V, sx, sy) \<and> length (slices M) = ncols V \<and>
          (\<forall>i<ncols V.
             reshape (map Re (rows F ! i)) sx sy = Inr (Array2 sy (slices M ! i)))"
    by blast
qed

theorem calculate_map_discards_imaginary_witness:
  "calculate_map exact_product exact_complex_product exact_lapack
       (Complex128 (Array2 4 [[Complex 1 2, 2, 3, 4], [5, 6, 7, Complex 8 (- 1)]]))
       (Array2 2 [[1, 0], [0, 1]]) (Some (2, 2))
     = calculate_map exact_product exact_complex_product exact_lapack
         (Float64 (Array2 4 [[1, 2, 3, 4], [5, 6, 7, 8]]))
         (Array2 2 [[1, 0], [0, 1]]) (Some (2, 2)) \<and>
   calculate_map exact_product exact_complex_product exact_lapack
       (Complex128 (Array2 4 [[Complex 1 2, 2, 3, 4], [5, 6, 7, Complex 8 (- 1)]]))
       (Array2 2 [[1, 0], [0, 1]]) (Some (2, 2))
     = Inr (Array3 (2, 2, 2) [[[1, 2], [3, 4]], [[5, 6], [7, 8]]])"
proof -
  let ?V = "Array2 2 [[1, 0], [0, 1::real]]"
  let ?R = "Array2 4 [[Complex 1 2, 2, 3, 4], [5, 6, 7, Complex 8 (- 1)]]"
  let ?Rr = "Array2 4 [[1, 2, 3, 4], [5, 6, 7, 8::real]]"
  have wf: "wf_array2 ?R" by (simp add: wf_array2_def)
  have re: "astype Re ?R = ?Rr" by (simp add: astype_def)
  have hyp: "\<forall>(P::real array2) i j. i < nrows P \<longrightarrow> j < ncols ?R \<longrightarrow>
               Re (exact_complex_product P ?R i j) = exact_product P (astype Re ?R) i j"
    using Re_exact_complex_product [OF wf] by blast
  have h1: "matmul exact_product (transpose_T ?V) ?V = Inr ?V" by code_simp
  have h2: "linalg_inv exact_lapack ?V = Inr ?V" by code_simp
  have p: "matmul exact_product ?V (transpose_T ?V) = Inr ?V" by code_simp
  have f: "matmul exact_product ?V ?Rr = Inr ?Rr" by code_simp
  have s: "(case Some (2, 2) of None \<Rightarrow> default_size (ncols ?Rr) | Some s \<Rightarrow> s) = (2, 2)"
    by simp
  have z: "(0::int) \<le> 2" by simp
  have m: "ncols ?Rr = nat 2 * nat 2" by simp
  have "calculate_map_dtype exact_product exact_lapack exact_product (\<lambda>x. x) ?Rr ?V (Some (2, 2))
        = Inr (Array3 (ncols ?V, nat 2, nat 2)
            (map (\<lambda>a. map (map (\<lambda>x. x)) (map (\<lambda>k. take (nat 2) (drop (k * nat 2) a)) [0..<nat 2]))
               (rows ?Rr)))"
    by (rule calculate_map_dtype_ok [OF h1 h2 p f s z z m])
  also have "\<dots> = Inr (Array3 (2, 2, 2) [[[1, 2], [3, 4]], [[5, 6], [7, 8]]])"
    by code_simp
  finally have "calculate_map exact_product exact_complex_product exact_lapack
                  (Float64 ?Rr) ?V (Some (2, 2))
        = Inr (Array3 (2, 2, 2) [[[1, 2], [3, 4]], [[5, 6], [7, 8]]])"
    by (simp add: calculate_map_def)
  with calculate_map_discards_imaginary
         [of ?R exact_complex_product exact_product exact_lapack ?V "Some (2, 2)"] hyp re
  show ?thesis by simp
qed

section \<open>The order of \<^verbatim>\<open>get_indices\<close> and the order of \<^verbatim>\<open>reshape\<close>\<close>

text \<open>
  Claim C8 does not hold as stated.  For the size \<open>(2, 3)\<close>, row \<open>2\<close> of \<^verbatim>\<open>get_indices\<close> is
  \<open>[0, 1]\<close>, but reshaping a flat row to \<open>2 \<times> 3\<close> places flat entry \<open>2\<close> at grid index
  \<open>[0][2]\<close>: the entry at \<open>[0][1]\<close> is flat entry \<open>1\<close>, and the entry at \<open>[1][0]\<close> is flat
  entry \<open>3\<close>.
\<close>

theorem get_indices_reshape_counterexample:
  "get_indices (SizePair 2 3) = Inr (Array2 2 [[0, 0], [1, 0], [0, 1], [1, 1], [0, 2], [1, 2]]) \<and>
   [[0, 0], [1, 0], [0, 1], [1, 1], [0, 2], [1, 2::int]] ! 2 = [0, 1] \<and>
   reshape [10, 11, 12, 13, 14, 15::int] 2 3 = Inr (Array2 3 [[10, 11, 12], [13, 14, 15]]) \<and>
   [10, 11, 12, 13, 14, 15::int] ! 2 = 12 \<and>
   [[10, 11, 12], [13, 14, 15::int]] ! 0 ! 2 = 12 \<and>
   [[10, 11, 12], [13, 14, 15::int]] ! 0 ! 1 = 11 \<and>
   [[10, 11, 12], [13, 14, 15::int]] ! 1 ! 0 = 13"
proof -
  have "get_indices (SizePair 2 3)
        = Inr (Array2 2 [[0, 0], [1, 0], [0, 1], [1, 1], [0, 2], [1, 2]])"
    by (rule get_indices_2_3)
  moreover have "reshape [10, 11, 12, 13, 14, 15::int] 2 3 = Inr (Array2 3 [[10, 11, 12], [13, 14, 15]])"
    by code_simp
  ultimately show ?thesis by simp
qed

lemma reshape_places:
  assumes "reshape a sx sy = Inr g" and "0 < sy" and "k < sx * sy"
  shows "rows g ! (k div sy) ! (k mod sy) = a ! k"
proof -
  have "k div sy < sx" using assms(3) by (simp add: less_mult_imp_div_less)
  moreover have "k mod sy < sy" using assms(2) by simp
  ultimately have "rows g ! (k div sy) ! (k mod sy) = a ! (k div sy * sy + k mod sy)"
    using assms(1) by (rule reshape_entry [rotated])
  then show ?thesis by simp
qed

text \<open>
  Claim C8, amended.  For a size with positive dimensions, the rows of \<^verbatim>\<open>get_indices\<close>
  are in meshgrid order with \<open>x\<close> varying fastest: row \<open>k\<close> is \<open>[k mod sx, k div sx]\<close>.
  The \<^verbatim>\<open>reshape\<close> in \<^verbatim>\<open>calculate_map\<close> is row-major: it places flat entry \<open>k\<close> at grid index
  \<open>[k div sy][k mod sy]\<close>.  For a square size the two orders agree when a row \<open>[x, y]\<close> of
  \<^verbatim>\<open>get_indices\<close> is read as column \<open>x\<close> of row \<open>y\<close> of the grid, that is, flat entry \<open>k\<close>
  is the grid entry at \<open>[y][x]\<close>.
\<close>

theorem get_indices_reshape_order:
  assumes "unpack_size sz = (sx, sy)" and "0 < sx" and "0 < sy" and "k < nat sx * nat sy"
  shows "\<exists>idx. get_indices sz = Inr idx \<and>
           rows idx ! k = [int (k mod nat sx), int (k div nat sx)] \<and>
           (\<forall>(a::'a list) g. reshape a (nat sx) (nat sy) = Inr g \<longrightarrow>
                  rows g ! (k div nat sy) ! (k mod nat sy) = a ! k) \<and>
           (sx = sy \<longrightarrow>
              (\<forall>(a::'a list) g. reshape a (nat sx) (nat sy) = Inr g \<longrightarrow>
                     rows g ! nat (rows idx ! k ! 1) ! nat (rows idx ! k ! 0) = a ! k))"
proof -
  define idx where
    "idx = Array2 2 (map (\<lambda>k. [int (k mod nat sx), int (k div nat sx)]) [0..<nat sx * nat sy])"
  have 1: "get_indices sz = Inr idx"
    using get_indices_rows [OF assms(1)] by (simp add: idx_def)
  have 2: "rows idx ! k = [int (k mod nat sx), int (k div nat sx)]"
    using assms(4) by (simp add: idx_def)
  have sy: "0 < nat sy" using assms(3) by simp
  have 3: "rows g ! (k div nat sy) ! (k mod nat sy) = a ! k"
    if "reshape a (nat sx) (nat sy) = Inr g" for a :: "'a list" and g
    using that sy assms(4) by (rule reshape_places)
  have 4: "rows g ! nat (rows idx ! k ! 1) ! nat (rows idx ! k ! 0) = a ! k"
    if "sx = sy" "reshape a (nat sx) (nat sy) = Inr g" for a :: "'a list" and g
    using 3 [OF that(2)] 2 that(1) by simp
  from 1 2 3 4 show ?thesis by blast
qed

theorem get_indices_reshape_order_witness:
  "unpack_size (SizeInt 2) = (2, 2) \<and> (0::int) < 2 \<and> (1::nat) < nat 2 * nat 2 \<and>
   (\<exists>idx. get_indices (SizeInt 2) = Inr idx \<and> rows idx ! 1 = [1, 0] \<and>
      reshape [10, 11, 12, 13::int] 2 2 = Inr (Array2 2 [[10, 11], [12, 13]]) \<and>
      [[10, 11], [12, 13::int]] ! nat (rows idx ! 1 ! 1) ! nat (rows idx ! 1 ! 0) = 11)"
proof -
  have h1: "unpack_size (SizeInt 2) = (2, 2)" by simp
  have h2: "(0::int) < 2" by simp
  have h4: "(1::nat) < nat 2 * nat 2" by simp
  have r: "reshape [10, 11, 12, 13::int] (nat 2) (nat 2) = Inr (Array2 2 [[10, 11], [12, 13]])"
    by code_simp
  from get_indices_reshape_order [OF h1 h2 h2 h4] obtain idx
    where a: "get_indices (SizeInt 2) = Inr idx"
      and b: "rows idx ! 1 = [int (1 mod nat 2), int (1 div nat 2)]"
      and c: "\<forall>(a::int list) g. reshape a (nat 2) (nat 2) = Inr g \<longrightarrow>
                 rows g ! nat (rows idx ! 1 ! 1) ! nat (rows idx ! 1 ! 0) = a ! 1"
    by auto
  from c r have "rows (Array2 2 [[10, 11], [12, 13::int]]) ! nat (rows idx ! 1 ! 1) ! nat (rows idx ! 1 ! 0)
                 = [10, 11, 12, 13] ! 1" by blast
  then have d: "[[10, 11], [12, 13::int]] ! nat (rows idx ! 1 ! 1) ! nat (rows idx ! 1 ! 0) = 11"
    by simp
  have e: "rows idx ! 1 = [1, 0]" using b by simp
  have r': "reshape [10, 11, 12, 13::int] 2 2 = Inr (Array2 2 [[10, 11], [12, 13]])"
    using r by simp
  from h1 h2 h4 a e r' d show ?thesis by blast
qed

section \<open>Properties of \<^verbatim>\<open>make_opm\<close>\<close>

lemma randn_negative:
  "sx < 0 \<or> sy < 0 \<Longrightarrow> randn sx sy g = Inl ValueError_negative_dimensions"
  by (simp add: randn_def)

lemma randn_ok:
  "0 \<le> sx \<Longrightarrow> 0 \<le> sy \<Longrightarrow>
   randn sx sy g =
     Inr (Array2 (nat sy) (map (\<lambda>i. map (\<lambda>j. g (i * nat sy + j)) [0..<nat sy]) [0..<nat sx]),
          \<lambda>n. g (n + nat sx * nat sy))"
  by (simp add: randn_def)

lemma difference_of_gaussians_rows:
  "difference_of_gaussians blur sigma k alpha x =
   Array2 (ncols x)
     (map (\<lambda>i. map (\<lambda>j. alpha * blur x sigma i j - alpha * blur x (k * sigma) i j) [0..<ncols x])
        [0..<nrows x])"
proof -
  have inner: "map2 (-) (map f js) (map h js) = map (\<lambda>j. f j - h j) js"
    for f h :: "nat \<Rightarrow> real" and js
    by (induction js) simp_all
  have outer: "map2 (map2 (-)) (map (\<lambda>i. map (f i) js) is) (map (\<lambda>i. map (h i) js) is)
               = map (\<lambda>i. map (\<lambda>j. f i j - h i j) js) is"
    for f h :: "nat \<Rightarrow> nat \<Rightarrow> real" and js "is"
    by (induction "is") (simp_all add: inner)
  show ?thesis
    by (simp add: difference_of_gaussians_def array_minus_def scalar_times_def astype_def
        gaussian_filter_def o_def outer)
qed

lemma complex_array_rows:
  "complex_array (Array2 n (map (\<lambda>i. map (f i) [0..<n]) [0..<m]))
                 (Array2 n (map (\<lambda>i. map (h i) [0..<n]) [0..<m]))
   = Array2 n (map (\<lambda>i. map (\<lambda>j. Complex (f i j) (h i j)) [0..<n]) [0..<m])"
proof -
  have inner: "map2 Complex (map f js) (map h js) = map (\<lambda>j. Complex (f j) (h j)) js"
    for f h :: "nat \<Rightarrow> real" and js
    by (induction js) simp_all
  have outer: "map2 (map2 Complex) (map (\<lambda>i. map (f i) js) is) (map (\<lambda>i. map (h i) js) is)
               = map (\<lambda>i. map (\<lambda>j. Complex (f i j) (h i j)) js) is"
    for f h :: "nat \<Rightarrow> nat \<Rightarrow> real" and js "is"
    by (induction "is") (simp_all add: inner)
  show ?thesis by (simp add: complex_array_def outer)
qed

lemma make_opm_negative:
  assumes "unpack_size sz = (sx, sy)" and "sx < 0 \<or> sy < 0"
  shows "make_opm blur sz sigma k alpha g = Inl ValueError_negative_dimensions"
  using assms by (simp add: make_opm_def randn_negative)

lemma make_opm_rows:
  assumes "unpack_size sz = (sx, sy)" and "0 \<le> sx" and "0 \<le> sy"
  shows "make_opm blur sz sigma k alpha g =
    (let a = Array2 (nat sy) (map (\<lambda>i. map (\<lambda>j. g (i * nat sy + j)) [0..<nat sy]) [0..<nat sx]);
         b = Array2 (nat sy)
               (map (\<lambda>i. map (\<lambda>j. g (i * nat sy + j + nat sx * nat sy)) [0..<nat sy]) [0..<nat sx])
     in Inr (Array2 (nat sy)
               (map (\<lambda>i. map (\<lambda>j.
                      Complex (alpha * blur a sigma i j - alpha * blur a (k * sigma) i j)
                              (alpha * blur b sigma i j - alpha * blur b (k * sigma) i j))
                    [0..<nat sy]) [0..<nat sx]),
             \<lambda>n. g (n + 2 * (nat sx * nat sy))))"
proof -
  have shift: "(\<lambda>n. g (n + nat sx * nat sy + nat sx * nat sy)) = (\<lambda>n. g (n + 2 * (nat sx * nat sy)))"
    by (rule ext) (simp add: mult_2 add.assoc)
  show ?thesis
    using assms
    by (simp add: make_opm_def randn_ok difference_of_gaussians_rows nrows_def
        complex_array_rows Let_def shift)
qed

lemma make_opm_zero_size:
  assumes "unpack_size sz = (0, 0)"
  shows "make_opm blur sz sigma k alpha g = Inr (Array2 0 [], g)"
  using make_opm_rows [OF assms, of blur sigma k alpha g] by simp

text \<open>
  Claim C5 does not hold as stated: \<^verbatim>\<open>make_opm\<close> has no check of its own, and the only
  failure for a bad size is the \<^verbatim>\<open>ValueError\<close> that \<^verbatim>\<open>np.random.randn\<close> raises for a
  negative dimension.  The size \<open>0\<close> is accepted: both noise arrays are empty, and so is
  the map that is returned.
\<close>

theorem make_opm_zero_size_counterexample:
  "make_opm (\<lambda>x sigma i j. 0) (SizeInt 0) 4 2 1 (\<lambda>n. 0) = Inr (Array2 0 [], \<lambda>n. 0)"
proof -
  have "unpack_size (SizeInt 0) = (0, 0)" by simp
  from make_opm_rows [OF this, of "\<lambda>x sigma i j. 0" 4 2 1 "\<lambda>n. 0"]
  show ?thesis by simp
qed

text \<open>
  Claim C5, amended.  For every size, a single integer or a pair, in which a dimension is
  negative, \<^verbatim>\<open>make_opm\<close> fails with the \<^verbatim>\<open>ValueError\<close> raised by \<^verbatim>\<open>np.random.randn\<close>.
\<close>

theorem make_opm_negative_size:
  assumes "unpack_size sz = (sx, sy)" and "sx < 0 \<or> sy < 0"
  shows "make_opm blur sz sigma k alpha g = Inl ValueError_negative_dimensions"
  using assms by (rule make_opm_negative)

theorem make_opm_negative_size_witness:
  "unpack_size (SizePair 3 (- 2)) = (3, - 2) \<and> ((3::int) < 0 \<or> (- 2::int) < 0) \<and>
   make_opm (\<lambda>x sigma i j. sigma * rows x ! i ! j) (SizePair 3 (- 2)) 4 2 1 real
     = Inl ValueError_negative_dimensions \<and>
   unpack_size (SizeInt (- 1)) = (- 1, - 1) \<and>
   make_opm (\<lambda>x sigma i j. sigma * rows x ! i ! j) (SizeInt (- 1)) 4 2 1 real
     = Inl ValueError_negative_dimensions"
proof -
  have a: "unpack_size (SizePair 3 (- 2)) = (3, - 2)" by simp
  have b: "(3::int) < 0 \<or> (- 2::int) < 0" by simp
  have c: "unpack_size (SizeInt (- 1)) = (- 1, - 1)" by simp
  have d: "(- 1::int) < 0 \<or> (- 1::int) < 0" by simp
  from make_opm_negative_size [OF a b] make_opm_negative_size [OF c d] a b c
  show ?thesis by blast
qed



section \<open>The angle passed on by \<^verbatim>\<open>plot_opm\<close>\<close>

lemma plot_opm_theta_complex_branch:
  assumes "iscomplex_any (Complex128 A)"
  shows "plot_opm_theta arctan2 (Complex128 A)
         = Float64 (astype (\<lambda>z. 1 / 2 * (arctan2 (Im z) (Re z) + pi)) A)"
  using assms by (simp add: plot_opm_theta_def angle_def astype_def o_def)

text \<open>
  Claim C9 at the \<open>1 \<times> 1\<close> map of complex dtype with the entry \<open>-1 + 0j\<close>.  The docstring of
  \<^verbatim>\<open>plot_opm\<close> says of its argument: ``If complex, it is treated like a complex OPM''.  The
  branch, however, is chosen by \<^verbatim>\<open>np.iscomplex(m).any()\<close>, which looks at the values and not
  at the dtype: no imaginary part of this map is non-zero, so the complex map itself, with
  the value \<open>-1\<close>, is passed to \<^verbatim>\<open>imshow\<close> instead of the real array
  \<open>0.5 * (angle(m) + \<pi>)\<close>, whatever \<^verbatim>\<open>arctan2\<close> computes.
\<close>

theorem plot_opm_theta_complex_dtype_real_values:
  "plot_opm_theta arctan2 (Complex128 (Array2 1 [[Complex (- 1) 0]]))
     = Complex128 (Array2 1 [[Complex (- 1) 0]])"
  by (simp add: plot_opm_theta_def iscomplex_any_def)

end
